theory Spec2Isabelle
  imports Main
begin

section \<open>Data model\<close>

text \<open>
  The records of the two object stores. A user is the object literal built by
  \<^verbatim>\<open>AuthManager.register\<close>; a referral is the literal built by
  \<^verbatim>\<open>ReferralSystem.awardEarnings\<close>. JavaScript numbers that hold amounts, levels and
  time stamps are integers here. \<^verbatim>\<open>referredBy\<close> is \<^verbatim>\<open>null\<close> (\<open>None\<close>) or a string.
\<close>

record earningsByLevel_t =
  level1 :: int
  level2 :: int
  level3 :: int
  level4Plus :: int

record user =
  uid :: string
  username :: string
  email :: string
  passwordHash :: string
  referralCode :: string
  referredBy :: "string option"
  isAdmin :: bool
  createdAt :: int
  totalEarnings :: int
  earningsByLevel :: earningsByLevel_t

record referral =
  rid :: string
  referrerId :: string
  referredId :: string
  level :: int
  earnings :: int
  r_createdAt :: int

text \<open>
  The database: the \<^verbatim>\<open>users\<close> and \<^verbatim>\<open>referrals\<close> object stores, each as the list of
  its records, and the number of environment events consumed so far.
\<close>

record world =
  users :: "user list"
  referrals :: "referral list"
  tick :: nat

text \<open>
  What the program does not decide: whether the n-th event, when it is a database
  request, ends in \<^verbatim>\<open>onerror\<close> (and with which message), what \<^verbatim>\<open>Date.now()\<close> returns
  when it is the n-th event, and what \<^verbatim>\<open>Math.random().toString(36).substr(2, 9)\<close>
  returns when it is the n-th event.
\<close>

record environment =
  fault :: "nat \<Rightarrow> string option"
  clock :: "nat \<Rightarrow> int"
  random36 :: "nat \<Rightarrow> string"

section \<open>Asynchronous computations\<close>

text \<open>
  An \<^verbatim>\<open>async\<close> function run on a world either never settles (\<open>None\<close>), or settles
  in a new world with a rejection (\<open>Inl message\<close>) or a value (\<open>Inr value\<close>).
\<close>

type_synonym 'a prog = "world \<Rightarrow> ((string + 'a) \<times> world) option"

definition resolve :: "'a \<Rightarrow> 'a prog" where
  "resolve a w = Some (Inr a, w)"

definition reject :: "string \<Rightarrow> 'a prog" where
  "reject e w = Some (Inl e, w)"

definition diverge :: "'a prog" where
  "diverge w = None"

definition await :: "'a prog \<Rightarrow> ('a \<Rightarrow> 'b prog) \<Rightarrow> 'b prog" where
  "await m f w =
     (case m w of
        None \<Rightarrow> None
      | Some (Inl e, w') \<Rightarrow> Some (Inl e, w')
      | Some (Inr a, w') \<Rightarrow> f a w')"

text \<open>\<^verbatim>\<open>for (const x of xs) { acc = body(x, acc) }\<close> with an awaiting body.\<close>

fun forOf :: "'a list \<Rightarrow> ('a \<Rightarrow> 'b \<Rightarrow> 'b prog) \<Rightarrow> 'b \<Rightarrow> 'b prog" where
  "forOf [] body acc = resolve acc"
| "forOf (x # xs) body acc = await (body x acc) (\<lambda>acc'. forOf xs body acc')"

section \<open>StorageManager\<close>

text \<open>
  Every method of the storage manager wraps one IndexedDB request in a promise:
  \<^verbatim>\<open>onsuccess\<close> resolves with the request's result, \<^verbatim>\<open>onerror\<close> rejects with the
  request's error. The request consumes one event; it fails when the environment says
  so, or when the operation itself is rejected by the store.
\<close>

definition request :: "environment \<Rightarrow> (world \<Rightarrow> string + ('a \<times> world)) \<Rightarrow> 'a prog" where
  "request env op w =
     (let w1 = w\<lparr>tick := Suc (tick w)\<rparr> in
      case fault env (tick w) of
        Some m \<Rightarrow> Some (Inl m, w1)
      | None \<Rightarrow> (case op w1 of
                   Inl m \<Rightarrow> Some (Inl m, w1)
                 | Inr (a, w2) \<Rightarrow> Some (Inr a, w2)))"

text \<open>The message of the \<^verbatim>\<open>ConstraintError\<close> raised by \<^verbatim>\<open>add\<close> on an existing key.\<close>

definition constraintError :: string where
  "constraintError = ''ConstraintError''"

text \<open>
  \<^verbatim>\<open>store.put(user)\<close>: the record with the same key is replaced where it is; a record
  with a new key is added (the position of a new record plays no role below).
\<close>

fun put :: "user \<Rightarrow> user list \<Rightarrow> user list" where
  "put u [] = [u]"
| "put u (x # xs) = (if uid x = uid u then u # xs else x # put u xs)"

text \<open>
  \<^verbatim>\<open>store.get(id)\<close> and \<^verbatim>\<open>store.index('referralCode').get(code)\<close>: the record with
  that key, \<^verbatim>\<open>undefined\<close> (\<open>None\<close>) when there is none.
\<close>

definition userById :: "world \<Rightarrow> string \<Rightarrow> user option" where
  "userById w i = find (\<lambda>u. uid u = i) (users w)"

definition userByReferralCode :: "world \<Rightarrow> string \<Rightarrow> user option" where
  "userByReferralCode w code = find (\<lambda>u. referralCode u = code) (users w)"

definition getUserById :: "environment \<Rightarrow> string \<Rightarrow> user option prog" where
  "getUserById env i = request env (\<lambda>w. Inr (userById w i, w))"

definition getUserByReferralCode :: "environment \<Rightarrow> string \<Rightarrow> user option prog" where
  "getUserByReferralCode env code = request env (\<lambda>w. Inr (userByReferralCode w code, w))"

definition updateUser :: "environment \<Rightarrow> user \<Rightarrow> user prog" where
  "updateUser env u = request env (\<lambda>w. Inr (u, w\<lparr>users := put u (users w)\<rparr>))"

definition getAllUsers :: "environment \<Rightarrow> user list prog" where
  "getAllUsers env = request env (\<lambda>w. Inr (users w, w))"

definition addReferral :: "environment \<Rightarrow> referral \<Rightarrow> referral prog" where
  "addReferral env r =
     request env (\<lambda>w. if rid r \<in> set (map rid (referrals w)) then Inl constraintError
                       else Inr (r, w\<lparr>referrals := referrals w @ [r]\<rparr>))"

definition getReferralsByReferrer :: "environment \<Rightarrow> string \<Rightarrow> referral list prog" where
  "getReferralsByReferrer env i =
     request env (\<lambda>w. Inr (filter (\<lambda>r. referrerId r = i) (referrals w), w))"

definition getAllReferrals :: "environment \<Rightarrow> referral list prog" where
  "getAllReferrals env = request env (\<lambda>w. Inr (referrals w, w))"

section \<open>ReferralSystem\<close>

record rewardStructure_t =
  rs_level1 :: int
  rs_level2 :: int
  rs_level3 :: int
  rs_level4Plus :: int

definition rewardStructure :: rewardStructure_t where
  "rewardStructure = \<lparr>rs_level1 = 100, rs_level2 = 60, rs_level3 = 40, rs_level4Plus = 20\<rparr>"

text \<open>Decimal digits of a number, as string concatenation writes them.\<close>

fun digits :: "nat \<Rightarrow> string" where
  "digits n = (if n < 10 then [char_of (48 + n)] else digits (n div 10) @ [char_of (48 + n mod 10)])"

definition numberToString :: "int \<Rightarrow> string" where
  "numberToString k = (if k < 0 then CHR ''-'' # digits (nat (- k)) else digits (nat k))"

definition dateNow :: "environment \<Rightarrow> int prog" where
  "dateNow env w = Some (Inr (clock env (tick w)), w\<lparr>tick := Suc (tick w)\<rparr>)"

definition mathRandom36 :: "environment \<Rightarrow> string prog" where
  "mathRandom36 env w = Some (Inr (random36 env (tick w)), w\<lparr>tick := Suc (tick w)\<rparr>)"

definition generateReferralId :: "environment \<Rightarrow> string prog" where
  "generateReferralId env =
     await (dateNow env) (\<lambda>now.
     await (mathRandom36 env) (\<lambda>rnd.
     resolve (''ref_'' @ numberToString now @ ''_'' @ rnd)))"

definition awardEarnings :: "environment \<Rightarrow> string \<Rightarrow> string \<Rightarrow> int \<Rightarrow> int \<Rightarrow> unit prog" where
  "awardEarnings env referrerId' referredUserId lvl amount =
     await (getUserById env referrerId') (\<lambda>referrer.
       case referrer of
         None \<Rightarrow> resolve ()
       | Some r \<Rightarrow>
           let r1 = r\<lparr>totalEarnings := totalEarnings r + amount\<rparr>;
               e = earningsByLevel r1;
               r2 = (if lvl = 1 then r1\<lparr>earningsByLevel := e\<lparr>level1 := level1 e + amount\<rparr>\<rparr>
                     else if lvl = 2 then r1\<lparr>earningsByLevel := e\<lparr>level2 := level2 e + amount\<rparr>\<rparr>
                     else if lvl = 3 then r1\<lparr>earningsByLevel := e\<lparr>level3 := level3 e + amount\<rparr>\<rparr>
                     else r1\<lparr>earningsByLevel := e\<lparr>level4Plus := level4Plus e + amount\<rparr>\<rparr>)
           in await (updateUser env r2) (\<lambda>_.
              await (generateReferralId env) (\<lambda>newId.
              await (dateNow env) (\<lambda>now.
              await (addReferral env
                       \<lparr>rid = newId, referrerId = referrerId', referredId = referredUserId,
                        level = lvl, earnings = amount, r_createdAt = now\<rparr>) (\<lambda>_.
              resolve ())))))"


text \<open>\<^verbatim>\<open>if (x.referredBy) { ... }\<close>: the branch is taken for a non-empty string.\<close>

definition ifTruthy :: "string option \<Rightarrow> (string \<Rightarrow> unit prog) \<Rightarrow> unit prog" where
  "ifTruthy rb body = (case rb of None \<Rightarrow> resolve () | Some code \<Rightarrow> if code = [] then resolve () else body code)"

text \<open>
  The \<^verbatim>\<open>while (currentReferrer.referredBy)\<close> loop of \<^verbatim>\<open>processNewReferral\<close>. The first
  argument bounds the number of times the loop condition is evaluated; with none left the
  loop has not finished.
\<close>

fun level4Loop :: "nat \<Rightarrow> environment \<Rightarrow> string \<Rightarrow> user \<Rightarrow> int \<Rightarrow> unit prog" where
  "level4Loop 0 env newUserId currentReferrer lvl = diverge"
| "level4Loop (Suc n) env newUserId currentReferrer lvl =
     ifTruthy (referredBy currentReferrer) (\<lambda>code.
       await (getUserByReferralCode env code) (\<lambda>nextReferrer.
         case nextReferrer of
           None \<Rightarrow> resolve ()
         | Some nxt \<Rightarrow>
             await (awardEarnings env (uid nxt) newUserId lvl (rs_level4Plus rewardStructure)) (\<lambda>_.
             level4Loop n env newUserId nxt (lvl + 1))))"

text \<open>The body of the \<^verbatim>\<open>try\<close> block of \<^verbatim>\<open>processNewReferral\<close>.\<close>

definition processBody :: "nat \<Rightarrow> environment \<Rightarrow> string \<Rightarrow> string \<Rightarrow> unit prog" where
  "processBody fuel env newUserId referralCode' =
     await (getUserById env newUserId) (\<lambda>newUser.
       case newUser of
         None \<Rightarrow> reject ''User not found''
       | Some _ \<Rightarrow>
     await (getUserByReferralCode env referralCode') (\<lambda>level1Referrer.
       case level1Referrer of
         None \<Rightarrow> reject ''Referrer not found''
       | Some l1 \<Rightarrow>
     await (awardEarnings env (uid l1) newUserId 1 (rs_level1 rewardStructure)) (\<lambda>_.
     ifTruthy (referredBy l1) (\<lambda>code1.
     await (getUserByReferralCode env code1) (\<lambda>level2Referrer.
       case level2Referrer of
         None \<Rightarrow> resolve ()
       | Some l2 \<Rightarrow>
     await (awardEarnings env (uid l2) newUserId 2 (rs_level2 rewardStructure)) (\<lambda>_.
     ifTruthy (referredBy l2) (\<lambda>code2.
     await (getUserByReferralCode env code2) (\<lambda>level3Referrer.
       case level3Referrer of
         None \<Rightarrow> resolve ()
       | Some l3 \<Rightarrow>
     await (awardEarnings env (uid l3) newUserId 3 (rs_level3 rewardStructure)) (\<lambda>_.
     level4Loop fuel env newUserId l3 4)))))))))"

text \<open>\<^verbatim>\<open>{ success: true }\<close> and \<^verbatim>\<open>{ success: false, error: error.message }\<close>.\<close>

datatype result = Success | Failure string

text \<open>
  \<^verbatim>\<open>processNewReferral\<close>: the \<^verbatim>\<open>catch\<close> clause turns every rejection of the body into
  a returned failure object; it changes nothing in the database.
\<close>

definition processNewReferral :: "nat \<Rightarrow> environment \<Rightarrow> string \<Rightarrow> string \<Rightarrow> result prog" where
  "processNewReferral fuel env newUserId referralCode' w =
     (case processBody fuel env newUserId referralCode' w of
        None \<Rightarrow> None
      | Some (Inl message, w') \<Rightarrow> Some (Inr (Failure message), w')
      | Some (Inr _, w') \<Rightarrow> Some (Inr Success, w'))"

definition getDirectReferrals :: "environment \<Rightarrow> string \<Rightarrow> user list prog" where
  "getDirectReferrals env userId =
     await (getUserById env userId) (\<lambda>user.
       case user of
         None \<Rightarrow> resolve []
       | Some u \<Rightarrow>
           await (getAllUsers env) (\<lambda>allUsers.
           resolve (filter (\<lambda>v. referredBy v = Some (referralCode u)) allUsers)))"

datatype tree = Node (t_user: user) (children: "tree list")

text \<open>
  \<^verbatim>\<open>buildReferralTree\<close>, \<^verbatim>\<open>null\<close> being \<open>None\<close>. The first argument bounds the depth
  of the recursion; with none left the call has not finished.
\<close>

fun buildReferralTree :: "nat \<Rightarrow> environment \<Rightarrow> string \<Rightarrow> tree option prog" where
  "buildReferralTree 0 env userId = diverge"
| "buildReferralTree (Suc n) env userId =
     await (getUserById env userId) (\<lambda>user.
       case user of
         None \<Rightarrow> resolve None
       | Some u \<Rightarrow>
           await (getDirectReferrals env userId) (\<lambda>directReferrals.
           await (forOf directReferrals (\<lambda>referral' cs.
                    await (buildReferralTree n env (uid referral')) (\<lambda>childTree.
                      case childTree of
                        Some t \<Rightarrow> resolve (cs @ [t])
                      | None \<Rightarrow> resolve cs)) []) (\<lambda>cs.
           resolve (Some (Node u cs)))))"

record stats =
  directReferrals :: int
  totalReferrals :: int
  levels :: "int \<rightharpoonup> int"

text \<open>The closure \<^verbatim>\<open>countReferrals\<close> of \<^verbatim>\<open>getReferralStats\<close>, with the object it updates.\<close>

fun countReferrals :: "tree \<Rightarrow> int \<Rightarrow> stats \<Rightarrow> stats" where
  "countReferrals (Node u cs) lvl st =
     (let st1 = (if lvl = 1 then st\<lparr>directReferrals := directReferrals st + 1\<rparr> else st);
          st2 = (if lvl > 0
                 then st1\<lparr>totalReferrals := totalReferrals st1 + 1,
                          levels := (levels st1)(lvl \<mapsto> (case levels st1 lvl of None \<Rightarrow> 0 | Some k \<Rightarrow> k) + 1)\<rparr>
                 else st1)
      in fold (\<lambda>child. countReferrals child (lvl + 1)) cs st2)"

text \<open>The object \<^verbatim>\<open>stats\<close> as \<^verbatim>\<open>getReferralStats\<close> creates it.\<close>

definition initialStats :: stats where
  "initialStats = \<lparr>directReferrals = 0, totalReferrals = 0, levels = Map.empty\<rparr>"

definition getReferralStats :: "nat \<Rightarrow> environment \<Rightarrow> string \<Rightarrow> stats option prog" where
  "getReferralStats fuel env userId =
     await (buildReferralTree fuel env userId) (\<lambda>tree.
       case tree of
         None \<Rightarrow> resolve None
       | Some t \<Rightarrow>
           resolve (Some (countReferrals t 0 initialStats)))"

text \<open>The \<^verbatim>\<open>while (currentReferrer)\<close> loop of \<^verbatim>\<open>getUpline\<close>, bounded like the one above.\<close>

fun uplineLoop :: "nat \<Rightarrow> environment \<Rightarrow> user option \<Rightarrow> user list \<Rightarrow> user list prog" where
  "uplineLoop 0 env currentReferrer upline = diverge"
| "uplineLoop (Suc n) env currentReferrer upline =
     (case currentReferrer of
        None \<Rightarrow> resolve upline
      | Some cur \<Rightarrow>
          (case referredBy cur of
             None \<Rightarrow> resolve (upline @ [cur])
           | Some code \<Rightarrow>
               if code = [] then resolve (upline @ [cur])
               else await (getUserByReferralCode env code) (\<lambda>nxt.
                      uplineLoop n env nxt (upline @ [cur]))))"

definition getUpline :: "nat \<Rightarrow> environment \<Rightarrow> string \<Rightarrow> user list prog" where
  "getUpline fuel env userId =
     await (getUserById env userId) (\<lambda>user.
       case user of
         None \<Rightarrow> resolve []
       | Some u \<Rightarrow>
           (case referredBy u of
              None \<Rightarrow> resolve []
            | Some code \<Rightarrow>
                if code = [] then resolve []
                else await (getUserByReferralCode env code) (\<lambda>currentReferrer.
                       uplineLoop fuel env currentReferrer [])))"

record breakdownEntry =
  referredUser :: "user option"
  b_level :: int
  b_earnings :: int
  date :: int

definition getEarningsBreakdown :: "environment \<Rightarrow> string \<Rightarrow> breakdownEntry list prog" where
  "getEarningsBreakdown env userId =
     await (getReferralsByReferrer env userId) (\<lambda>refs.
     await (forOf refs (\<lambda>ref breakdown.
              await (getUserById env (referredId ref)) (\<lambda>referredUser'.
              resolve (breakdown @ [\<lparr>referredUser = referredUser', b_level = level ref,
                                     b_earnings = earnings ref, date = r_createdAt ref\<rparr>]))) []) (\<lambda>breakdown.
     resolve (sort_key (\<lambda>b. - date b) breakdown)))"

text \<open>The closure \<^verbatim>\<open>countNodes\<close> of \<^verbatim>\<open>getNetworkSize\<close>.\<close>

fun countNodes :: "tree \<Rightarrow> int" where
  "countNodes (Node u cs) = fold (\<lambda>child count. count + countNodes child) cs (int (length cs))"

definition getNetworkSize :: "nat \<Rightarrow> environment \<Rightarrow> string \<Rightarrow> int prog" where
  "getNetworkSize fuel env userId =
     await (buildReferralTree fuel env userId) (\<lambda>tree.
       case tree of
         None \<Rightarrow> resolve 0
       | Some t \<Rightarrow> resolve (countNodes t))"

record topEarner =
  te_username :: string
  te_totalEarnings :: int
  te_referralCode :: string

record systemStats =
  totalUsers :: nat
  ss_totalReferrals :: nat
  ss_totalEarnings :: int
  ss_earningsByLevel :: earningsByLevel_t
  topEarners :: "topEarner list"

definition getSystemStats :: "environment \<Rightarrow> systemStats prog" where
  "getSystemStats env =
     await (getAllUsers env) (\<lambda>allUsers.
     await (getAllReferrals env) (\<lambda>allReferrals.
     resolve
       \<lparr>totalUsers = length allUsers,
        ss_totalReferrals = length allReferrals,
        ss_totalEarnings = fold (\<lambda>u s. s + totalEarnings u) allUsers 0,
        ss_earningsByLevel =
          fold (\<lambda>u e. \<lparr>level1 = level1 e + level1 (earningsByLevel u),
                        level2 = level2 e + level2 (earningsByLevel u),
                        level3 = level3 e + level3 (earningsByLevel u),
                        level4Plus = level4Plus e + level4Plus (earningsByLevel u)\<rparr>)
            allUsers \<lparr>level1 = 0, level2 = 0, level3 = 0, level4Plus = 0\<rparr>,
        topEarners =
          map (\<lambda>u. \<lparr>te_username = username u, te_totalEarnings = totalEarnings u,
                     te_referralCode = referralCode u\<rparr>)
            (take 10 (sort_key (\<lambda>u. - totalEarnings u) allUsers))\<rparr>))"

section \<open>AuthManager: the record of a new user\<close>

text \<open>
  The object literal of \<^verbatim>\<open>register\<close> (and of \<^verbatim>\<open>createAdminUser\<close>), its computed
  fields taken as arguments, and \<^verbatim>\<open>store.add(user)\<close> with the key and the three unique
  indexes of the \<^verbatim>\<open>users\<close> store.
\<close>

definition newUserObject ::
  "string \<Rightarrow> string \<Rightarrow> string \<Rightarrow> string \<Rightarrow> string \<Rightarrow> string option \<Rightarrow> bool \<Rightarrow> int \<Rightarrow> user" where
  "newUserObject newId name mail hash code referredBy' admin now =
     \<lparr>uid = newId, username = name, email = mail, passwordHash = hash, referralCode = code,
      referredBy = referredBy', isAdmin = admin, createdAt = now, totalEarnings = 0,
      earningsByLevel = \<lparr>level1 = 0, level2 = 0, level3 = 0, level4Plus = 0\<rparr>\<rparr>"

definition addUser :: "environment \<Rightarrow> user \<Rightarrow> user prog" where
  "addUser env u =
     request env (\<lambda>w. if uid u \<in> set (map uid (users w))
                          \<or> username u \<in> set (map username (users w))
                          \<or> email u \<in> set (map email (users w))
                          \<or> referralCode u \<in> set (map referralCode (users w))
                       then Inl constraintError
                       else Inr (u, w\<lparr>users := users w @ [u]\<rparr>))"

section \<open>Notions used to state the properties\<close>

text \<open>
  The record that \<^verbatim>\<open>awardEarnings\<close> writes back: the aggregate and one bucket, chosen
  by the level, raised by the amount.
\<close>

definition credit :: "int \<Rightarrow> int \<Rightarrow> user \<Rightarrow> user" where
  "credit lvl amount r =
     (let e = earningsByLevel r;
          e' = (if lvl = 1 then e\<lparr>level1 := level1 e + amount\<rparr>
                else if lvl = 2 then e\<lparr>level2 := level2 e + amount\<rparr>
                else if lvl = 3 then e\<lparr>level3 := level3 e + amount\<rparr>
                else e\<lparr>level4Plus := level4Plus e + amount\<rparr>)
      in r\<lparr>totalEarnings := totalEarnings r + amount, earningsByLevel := e'\<rparr>)"

text \<open>
  The identifier \<^verbatim>\<open>generateReferralId\<close> builds when it starts at event \<open>t\<close>, the
  record an award appends when it starts at event \<open>t\<close>, and the world a completed
  award leaves behind.
\<close>

definition referralIdAt :: "environment \<Rightarrow> nat \<Rightarrow> string" where
  "referralIdAt env t = ''ref_'' @ numberToString (clock env t) @ ''_'' @ random36 env (Suc t)"

definition awardRecord :: "environment \<Rightarrow> nat \<Rightarrow> string \<Rightarrow> string \<Rightarrow> int \<Rightarrow> int \<Rightarrow> referral" where
  "awardRecord env t i nu lvl amount =
     \<lparr>rid = referralIdAt env (t + 2), referrerId = i, referredId = nu, level = lvl,
      earnings = amount, r_createdAt = clock env (t + 4)\<rparr>"

definition awarded :: "environment \<Rightarrow> string \<Rightarrow> string \<Rightarrow> int \<Rightarrow> int \<Rightarrow> user \<Rightarrow> world \<Rightarrow> world" where
  "awarded env i nu lvl amount r w =
     w\<lparr>users := put (credit lvl amount r) (users w),
       referrals := referrals w @ [awardRecord env (tick w) i nu lvl amount],
       tick := tick w + 6\<rparr>"

text \<open>
  An example database: Alice is a root user, Bob registered with Alice's code, Carol
  with Bob's. In the example environment no request fails.
\<close>

definition userA :: user where
  "userA = newUserObject ''user_1_a'' ''alice'' ''alice@example.com'' ''5e88'' ''AAAAAAA1'' None False 1700000000000"

definition userB :: user where
  "userB = newUserObject ''user_2_b'' ''bob'' ''bob@example.com'' ''6b3a'' ''BBBBBBB2'' (Some ''AAAAAAA1'') False 1700000000100"

definition userC :: user where
  "userC = newUserObject ''user_3_c'' ''carol'' ''carol@example.com'' ''1c8b'' ''CCCCCCC3'' (Some ''BBBBBBB2'') False 1700000000200"

definition world0 :: world where
  "world0 = \<lparr>users = [userA, userB, userC], referrals = [], tick = 0\<rparr>"

definition env0 :: environment where
  "env0 = \<lparr>fault = (\<lambda>_. None), clock = (\<lambda>t. 1700000000300 + int t), random36 = (\<lambda>_. ''k3x9q2m1z'')\<rparr>"

text \<open>
  The example database after an earlier award of 100 at level 1 to Alice for Bob,
  recorded under the identifier that the example environment's clock and random string give to the next
  award started at event 0.
\<close>

definition worldClash :: world where
  "worldClash = world0\<lparr>users := [credit 1 100 userA, userB, userC], referrals :=
     [\<lparr>rid = ''ref_1700000000302_k3x9q2m1z'', referrerId = ''user_1_a'', referredId = ''user_2_b'',
       level = 1, earnings = 100, r_createdAt = 1700000000302\<rparr>]\<rparr>"

text \<open>
  A relation between the world before and after that holds for every way a computation
  can settle (resolved or rejected); relations that hold for no change, compose, and do
  not look at the event counter; and relations that the two writes of an award respect.
\<close>

definition preserves :: "(world \<Rightarrow> world \<Rightarrow> bool) \<Rightarrow> 'a prog \<Rightarrow> bool" where
  "preserves R m = (\<forall>w r w'. m w = Some (r, w') \<longrightarrow> R w w')"

definition stable :: "(world \<Rightarrow> world \<Rightarrow> bool) \<Rightarrow> bool" where
  "stable R = ((\<forall>w. R w w) \<and> (\<forall>a b c. R a b \<longrightarrow> R b c \<longrightarrow> R a c)
               \<and> (\<forall>w t. R w (w\<lparr>tick := t\<rparr>)))"

definition awardClosed :: "(int \<Rightarrow> bool) \<Rightarrow> (world \<Rightarrow> world \<Rightarrow> bool) \<Rightarrow> bool" where
  "awardClosed P R = ((\<forall>w i r lvl amount. userById w i = Some r \<longrightarrow> P amount \<longrightarrow>
                        R w (w\<lparr>users := put (credit lvl amount r) (users w)\<rparr>))
                    \<and> (\<forall>w r. R w (w\<lparr>referrals := referrals w @ [r]\<rparr>)))"

text \<open>
  The invariant of the earnings fields: the four buckets of a user add up to the total.
\<close>

definition bucketsSumToTotal :: "user \<Rightarrow> bool" where
  "bucketsSumToTotal u =
     (level1 (earningsByLevel u) + level2 (earningsByLevel u) + level3 (earningsByLevel u)
        + level4Plus (earningsByLevel u) = totalEarnings u)"

definition earningsInvariant :: "world \<Rightarrow> bool" where
  "earningsInvariant w = (\<forall>u \<in> set (users w). bucketsSumToTotal u)"

definition keepsInvariant :: "world \<Rightarrow> world \<Rightarrow> bool" where
  "keepsInvariant w w' = (earningsInvariant w \<longrightarrow> earningsInvariant w')"

definition sameStores :: "world \<Rightarrow> world \<Rightarrow> bool" where
  "sameStores w w' = (users w' = users w \<and> referrals w' = referrals w)"

text \<open>
  The number of nodes of a referral tree, its root included.
\<close>

fun treeSize :: "tree \<Rightarrow> int" where
  "treeSize (Node u cs) = 1 + sum_list (map treeSize cs)"

text \<open>
  The referrer graph induced by \<open>referredBy\<close>: an edge from the id of a user to the id
  of a user whose referral code the first one carries as \<open>referredBy\<close>. The fields of a
  user that the graph and the lookups by code depend on, which no award changes.
\<close>

definition referrerGraph :: "world \<Rightarrow> (string \<times> string) set" where
  "referrerGraph w =
     {(uid u, uid v) | u v. u \<in> set (users w) \<and> v \<in> set (users w)
                            \<and> referredBy u = Some (referralCode v)}"

definition acyclicReferrers :: "world \<Rightarrow> bool" where
  "acyclicReferrers w = acyclic (referrerGraph w)"

definition skel :: "user \<Rightarrow> string \<times> string \<times> string option" where
  "skel u = (uid u, referralCode u, referredBy u)"

definition sameSkeleton :: "world \<Rightarrow> world \<Rightarrow> bool" where
  "sameSkeleton w w' = (map skel (users w') = map skel (users w))"



text \<open>
  The generated identifiers are fresh from a world on: no identifier generated from now
  on is the key of a stored referral record, and no two of them are equal.
\<close>

definition freshIds :: "environment \<Rightarrow> world \<Rightarrow> bool" where
  "freshIds env w =
     ((\<forall>t\<ge>tick w. referralIdAt env t \<notin> rid ` set (referrals w))
      \<and> (\<forall>t t'. tick w \<le> t \<longrightarrow> t < t' \<longrightarrow> referralIdAt env t \<noteq> referralIdAt env t'))"

text \<open>
  An environment in which no request fails.
\<close>

definition noFaults :: "environment \<Rightarrow> bool" where
  "noFaults env = (\<forall>t. fault env t = None)"

text \<open>
  A database that violates the acyclicity invariant: Sam carries Sam's own referral code
  as \<open>referredBy\<close>.
\<close>

definition userS :: user where
  "userS = newUserObject ''user_7_s'' ''sam'' ''sam@example.com'' ''9f2c'' ''SSSSSSS7''
             (Some ''SSSSSSS7'') False 1700000000000"

definition worldCyclic :: world where
  "worldCyclic = \<lparr>users = [userS], referrals = [], tick = 0\<rparr>"

text \<open>
  The full descendant tree of the user with id \<open>i\<close> in a list of users: the root is that
  user, and the children are the trees of the users whose \<open>referredBy\<close> is the root's
  referral code, one for each, in the order of the list.
\<close>

inductive referralTree :: "user list \<Rightarrow> string \<Rightarrow> tree \<Rightarrow> bool" for us where
  referralTreeI:
    "find (\<lambda>u. uid u = i) us = Some u \<Longrightarrow>
     list_all2 (\<lambda>v t. referralTree us (uid v) t)
       (filter (\<lambda>v. referredBy v = Some (referralCode u)) us) cs \<Longrightarrow>
     referralTree us i (Node u cs)"

text \<open>
  A computation that never rejects.
\<close>

definition resolves :: "'a prog \<Rightarrow> bool" where
  "resolves m = (\<forall>w e w'. m w \<noteq> Some (Inl e, w'))"

text \<open>
  The referrer chain above a user, as the list of the ids of its members, nearest first.
  \<open>upchain w rb ids\<close>: following \<open>referredBy\<close> links from the value \<open>rb\<close> visits the users
  with the ids \<open>ids\<close> and then ends, at a user without referrer or at a code that
  resolves to no user. \<open>referrerChain w code ids\<close>: the chain that starts with the user
  the referral code given at registration resolves to.
\<close>

inductive upchain :: "world \<Rightarrow> string option \<Rightarrow> string list \<Rightarrow> bool" for w where
  upchain_root: "upchain w None []"
| upchain_empty: "upchain w (Some []) []"
| upchain_break: "code \<noteq> [] \<Longrightarrow> userByReferralCode w code = None \<Longrightarrow> upchain w (Some code) []"
| upchain_step: "code \<noteq> [] \<Longrightarrow> userByReferralCode w code = Some u
                  \<Longrightarrow> upchain w (referredBy u) ids \<Longrightarrow> upchain w (Some code) (uid u # ids)"

definition referrerChain :: "world \<Rightarrow> string \<Rightarrow> string list \<Rightarrow> bool" where
  "referrerChain w code ids =
     (case userByReferralCode w code of
        None \<Rightarrow> ids = []
      | Some u \<Rightarrow> (\<exists>rest. ids = uid u # rest \<and> upchain w (referredBy u) rest))"

text \<open>
  The reward table of the specification, and the awards it prescribes for a chain whose
  first member is at level \<open>lvl\<close>: referrer, referred user, level, amount.
\<close>

definition specReward :: "int \<Rightarrow> int" where
  "specReward lvl = (if lvl = 1 then 100 else if lvl = 2 then 60 else if lvl = 3 then 40 else 20)"

fun awardsFrom :: "int \<Rightarrow> string \<Rightarrow> string list \<Rightarrow> (string \<times> string \<times> int \<times> int) list" where
  "awardsFrom lvl nu [] = []"
| "awardsFrom lvl nu (i # ids) = (i, nu, lvl, specReward lvl) # awardsFrom (lvl + 1) nu ids"

definition core :: "referral \<Rightarrow> string \<times> string \<times> int \<times> int" where
  "core r = (referrerId r, referredId r, level r, earnings r)"

definition sumEarnings :: "world \<Rightarrow> int" where
  "sumEarnings w = sum_list (map totalEarnings (users w))"

text \<open>
  \<open>awardsDone w w' as\<close>: from \<open>w\<close> to \<open>w'\<close> exactly the awards \<open>as\<close> were made: one
  referral record appended for each, in order, the earnings of the users raised by their
  amounts, and nothing else about the users changed.
\<close>

definition awardsDone :: "world \<Rightarrow> world \<Rightarrow> (string \<times> string \<times> int \<times> int) list \<Rightarrow> bool" where
  "awardsDone w w' as =
     (map skel (users w') = map skel (users w)
      \<and> (\<exists>recs. referrals w' = referrals w @ recs \<and> map core recs = as)
      \<and> sumEarnings w' = sumEarnings w + sum_list (map (\<lambda>(i, n, l, a). a) as))"



text \<open>
  Nothing is rolled back from \<open>w\<close> to \<open>w'\<close>: the users are the same (same ids, codes and
  referrers, in place), no earnings field of a user is lower, and the referral records of
  \<open>w\<close> are still there, in place, with new ones only after them.
\<close>

definition notLess :: "user \<Rightarrow> user \<Rightarrow> bool" where
  "notLess u u' =
     (skel u' = skel u \<and> totalEarnings u \<le> totalEarnings u'
      \<and> level1 (earningsByLevel u) \<le> level1 (earningsByLevel u')
      \<and> level2 (earningsByLevel u) \<le> level2 (earningsByLevel u')
      \<and> level3 (earningsByLevel u) \<le> level3 (earningsByLevel u')
      \<and> level4Plus (earningsByLevel u) \<le> level4Plus (earningsByLevel u'))"

definition grown :: "world \<Rightarrow> world \<Rightarrow> bool" where
  "grown w w' =
     (list_all2 notLess (users w) (users w') \<and> (\<exists>recs. referrals w' = referrals w @ recs))"

text \<open>
  The example environment with one failure: the request that is event 8 (the lookup of
  the level-2 referrer, when the call starts at event 0) ends in an error.
\<close>

definition envFault :: environment where
  "envFault = env0\<lparr>fault := (\<lambda>t. if t = 8 then Some ''UnknownError'' else None)\<rparr>"

section \<open>Stepping through asynchronous code\<close>

lemma await_Inr: "m w = Some (Inr a, w') \<Longrightarrow> await m f w = f a w'"
  by (simp add: await_def)

lemma await_Inl: "m w = Some (Inl e, w') \<Longrightarrow> await m f w = Some (Inl e, w')"
  by (simp add: await_def)

lemma await_None: "m w = None \<Longrightarrow> await m f w = None"
  by (simp add: await_def)

lemma await_resolve: "await (resolve a) f = f a"
  by (rule ext) (simp add: await_def resolve_def)

lemma request_ok:
  "fault env (tick w) = None \<Longrightarrow> op (w\<lparr>tick := Suc (tick w)\<rparr>) = Inr (a, w2)
     \<Longrightarrow> request env op w = Some (Inr a, w2)"
  by (simp add: request_def)

lemma request_fault:
  "fault env (tick w) = Some m \<Longrightarrow> request env op w = Some (Inl m, w\<lparr>tick := Suc (tick w)\<rparr>)"
  by (simp add: request_def)

subsection \<open>Storage requests that succeed\<close>

lemma userById_tick [simp]: "userById (w\<lparr>tick := t\<rparr>) i = userById w i"
  by (simp add: userById_def)

lemma userById_referrals [simp]: "userById (w\<lparr>referrals := rs\<rparr>) i = userById w i"
  by (simp add: userById_def)

lemma userByReferralCode_tick [simp]:
  "userByReferralCode (w\<lparr>tick := t\<rparr>) c = userByReferralCode w c"
  by (simp add: userByReferralCode_def)

lemma userByReferralCode_referrals [simp]:
  "userByReferralCode (w\<lparr>referrals := rs\<rparr>) c = userByReferralCode w c"
  by (simp add: userByReferralCode_def)

lemma getUserById_ok:
  "fault env (tick w) = None \<Longrightarrow>
     getUserById env i w = Some (Inr (userById w i), w\<lparr>tick := Suc (tick w)\<rparr>)"
  by (simp add: getUserById_def request_def)

lemma getUserByReferralCode_ok:
  "fault env (tick w) = None \<Longrightarrow>
     getUserByReferralCode env c w
       = Some (Inr (userByReferralCode w c), w\<lparr>tick := Suc (tick w)\<rparr>)"
  by (simp add: getUserByReferralCode_def request_def)

section \<open>awardEarnings\<close>

lemma awardEarnings_absent:
  assumes "fault env (tick w) = None" and "userById w i = None"
  shows "awardEarnings env i nu lvl amount w = Some (Inr (), w\<lparr>tick := Suc (tick w)\<rparr>)"
  using assms by (simp add: awardEarnings_def await_def getUserById_def request_def resolve_def)

lemma updateUser_ok:
  "fault env (tick w) = None \<Longrightarrow>
     updateUser env u w = Some (Inr u, w\<lparr>tick := Suc (tick w), users := put u (users w)\<rparr>)"
  by (simp add: updateUser_def request_def)

lemma generateReferralId_ok:
  "generateReferralId env w = Some (Inr (referralIdAt env (tick w)), w\<lparr>tick := Suc (Suc (tick w))\<rparr>)"
  by (simp add: generateReferralId_def await_def dateNow_def mathRandom36_def resolve_def
      referralIdAt_def)

lemma addReferral_ok:
  "fault env (tick w) = None \<Longrightarrow> rid r \<notin> rid ` set (referrals w) \<Longrightarrow>
     addReferral env r w = Some (Inr r, w\<lparr>tick := Suc (tick w), referrals := referrals w @ [r]\<rparr>)"
  by (simp add: addReferral_def request_def)

lemma awardEarnings_unfold:
  "awardEarnings env i nu lvl amount =
     await (getUserById env i) (\<lambda>referrer.
       case referrer of
         None \<Rightarrow> resolve ()
       | Some r \<Rightarrow>
           await (updateUser env (credit lvl amount r)) (\<lambda>_.
           await (generateReferralId env) (\<lambda>newId.
           await (dateNow env) (\<lambda>now.
           await (addReferral env
                    \<lparr>rid = newId, referrerId = i, referredId = nu,
                     level = lvl, earnings = amount, r_createdAt = now\<rparr>) (\<lambda>_.
           resolve ())))))"
  unfolding awardEarnings_def credit_def Let_def
  by (intro arg_cong2[where f=await] refl ext option.case_cong) auto

lemma await_step: "m w = Some (Inr a, w') \<Longrightarrow> f a w' = res \<Longrightarrow> await m f w = res"
  by (simp add: await_def)

lemma awardEarnings_ok:
  assumes f0: "fault env (tick w) = None"
    and f1: "fault env (tick w + 1) = None"
    and f5: "fault env (tick w + 5) = None"
    and r: "userById w i = Some r"
    and fresh: "referralIdAt env (tick w + 2) \<notin> rid ` set (referrals w)"
  shows "awardEarnings env i nu lvl amount w = Some (Inr (), awarded env i nu lvl amount r w)"
  unfolding awardEarnings_unfold
  apply (rule await_step, rule getUserById_ok, rule f0)
  apply (simp only: r option.case)
  apply (rule await_step, rule updateUser_ok, simp add: f1 [simplified])
  apply (rule await_step, rule generateReferralId_ok)
  apply (rule await_step, simp add: dateNow_def)
  apply (rule await_step, rule addReferral_ok)
  using f5 fresh
    apply (simp_all add: eval_nat_numeral resolve_def awarded_def awardRecord_def)
  done

lemma find_put_id:
  "find (\<lambda>u. uid u = i) (put r xs) = (if uid r = i then Some r else find (\<lambda>u. uid u = i) xs)"
  by (induction xs) auto

lemma find_id_uid: "find (\<lambda>u. uid u = i) xs = Some r \<Longrightarrow> uid r = i"
  by (induction xs) (auto split: if_splits)

lemma uid_credit [simp]: "uid (credit lvl amount r) = uid r"
  by (simp add: credit_def Let_def)

lemma userById_uid: "userById w i = Some r \<Longrightarrow> uid r = i"
  unfolding userById_def by (rule find_id_uid)

lemma userById_put:
  "userById (w\<lparr>users := put r (users w)\<rparr>) i = (if uid r = i then Some r else userById w i)"
  by (simp add: userById_def find_put_id)

lemma userById_awarded:
  "userById (awarded env j nu lvl amount r w) i
     = (if uid r = i then Some (credit lvl amount r) else userById w i)"
  by (simp add: userById_def awarded_def find_put_id)

text \<open>
  What \<^verbatim>\<open>awardEarnings(referrerId, referredUserId, level, amount)\<close> does when its
  requests succeed and the identifier it generates happens not to be the key of a stored
  record: if no user has the id \<open>referrerId\<close> it resolves without an error and leaves
  both stores as they were. Otherwise it raises the user's \<open>totalEarnings\<close> and the
  bucket of the level by the amount, writes that user back, and appends exactly one
  referral record with the referrer's id, the referred user's id, the level, the amount,
  the generated identifier and the time stamp read for it.
\<close>

lemma awardEarnings_fresh_id:
  assumes f0: "fault env (tick w) = None"
  shows "(userById w i = None \<longrightarrow>
            (\<exists>w'. awardEarnings env i nu lvl amount w = Some (Inr (), w')
                 \<and> users w' = users w \<and> referrals w' = referrals w))
       \<and> (\<forall>r. userById w i = Some r
               \<and> fault env (tick w + 1) = None \<and> fault env (tick w + 5) = None
               \<and> referralIdAt env (tick w + 2) \<notin> rid ` set (referrals w) \<longrightarrow>
            (\<exists>w'. awardEarnings env i nu lvl amount w = Some (Inr (), w')
                 \<and> users w' = put (credit lvl amount r) (users w)
                 \<and> userById w' i = Some (credit lvl amount r)
                 \<and> totalEarnings (credit lvl amount r) = totalEarnings r + amount
                 \<and> level1 (earningsByLevel (credit lvl amount r))
                     = level1 (earningsByLevel r) + (if lvl = 1 then amount else 0)
                 \<and> level2 (earningsByLevel (credit lvl amount r))
                     = level2 (earningsByLevel r) + (if lvl = 2 then amount else 0)
                 \<and> level3 (earningsByLevel (credit lvl amount r))
                     = level3 (earningsByLevel r) + (if lvl = 3 then amount else 0)
                 \<and> level4Plus (earningsByLevel (credit lvl amount r))
                     = level4Plus (earningsByLevel r) + (if lvl \<notin> {1, 2, 3} then amount else 0)
                 \<and> referrals w' = referrals w @
                      [\<lparr>rid = referralIdAt env (tick w + 2), referrerId = i, referredId = nu,
                        level = lvl, earnings = amount, r_createdAt = clock env (tick w + 4)\<rparr>]
                 \<and> distinct (map rid (referrals w')) = distinct (map rid (referrals w))))"
proof (intro conjI impI allI)
  assume "userById w i = None"
  from awardEarnings_absent [OF f0 this]
  show "\<exists>w'. awardEarnings env i nu lvl amount w = Some (Inr (), w')
                 \<and> users w' = users w \<and> referrals w' = referrals w"
    by simp
next
  fix r
  assume a: "userById w i = Some r
               \<and> fault env (tick w + 1) = None \<and> fault env (tick w + 5) = None
               \<and> referralIdAt env (tick w + 2) \<notin> rid ` set (referrals w)"
  then have eq: "awardEarnings env i nu lvl amount w = Some (Inr (), awarded env i nu lvl amount r w)"
    using f0 by (intro awardEarnings_ok) simp_all
  have "uid r = i" using a userById_uid by blast
  then show "\<exists>w'. awardEarnings env i nu lvl amount w = Some (Inr (), w')
                 \<and> users w' = put (credit lvl amount r) (users w)
                 \<and> userById w' i = Some (credit lvl amount r)
                 \<and> totalEarnings (credit lvl amount r) = totalEarnings r + amount
                 \<and> level1 (earningsByLevel (credit lvl amount r))
                     = level1 (earningsByLevel r) + (if lvl = 1 then amount else 0)
                 \<and> level2 (earningsByLevel (credit lvl amount r))
                     = level2 (earningsByLevel r) + (if lvl = 2 then amount else 0)
                 \<and> level3 (earningsByLevel (credit lvl amount r))
                     = level3 (earningsByLevel r) + (if lvl = 3 then amount else 0)
                 \<and> level4Plus (earningsByLevel (credit lvl amount r))
                     = level4Plus (earningsByLevel r) + (if lvl \<notin> {1, 2, 3} then amount else 0)
                 \<and> referrals w' = referrals w @
                      [\<lparr>rid = referralIdAt env (tick w + 2), referrerId = i, referredId = nu,
                        level = lvl, earnings = amount, r_createdAt = clock env (tick w + 4)\<rparr>]
                 \<and> distinct (map rid (referrals w')) = distinct (map rid (referrals w))"
    using a unfolding eq
    by (intro exI [of _ "awarded env i nu lvl amount r w"])
       (simp add: userById_awarded, simp add: awarded_def awardRecord_def credit_def Let_def)
qed

lemma awardEarnings_fresh_id_example:
  "fault env0 (tick world0) = None
   \<and> userById world0 ''user_2_b'' = Some userB
   \<and> fault env0 (tick world0 + 1) = None \<and> fault env0 (tick world0 + 5) = None
   \<and> referralIdAt env0 (tick world0 + 2) \<notin> rid ` set (referrals world0)
   \<and> (\<exists>w'. awardEarnings env0 ''user_2_b'' ''user_3_c'' 1 100 world0 = Some (Inr (), w')
          \<and> userById w' ''user_2_b'' = Some (credit 1 100 userB)
          \<and> totalEarnings (credit 1 100 userB) = 100
          \<and> map referrerId (referrals w') = [''user_2_b''])"
proof -
  have h0: "fault env0 (tick world0) = None" by (simp add: env0_def)
  have h1: "userById world0 ''user_2_b'' = Some userB
               \<and> fault env0 (tick world0 + 1) = None \<and> fault env0 (tick world0 + 5) = None
               \<and> referralIdAt env0 (tick world0 + 2) \<notin> rid ` set (referrals world0)"
    by (simp add: env0_def world0_def userA_def userB_def userC_def newUserObject_def userById_def)
  have t: "totalEarnings userB = 0" by (simp add: userB_def newUserObject_def)
  from awardEarnings_fresh_id [OF h0, of "''user_2_b''" "''user_3_c''" 1 100] h1
  obtain w' where "awardEarnings env0 ''user_2_b'' ''user_3_c'' 1 100 world0 = Some (Inr (), w')"
    and "userById w' ''user_2_b'' = Some (credit 1 100 userB)"
    and "totalEarnings (credit 1 100 userB) = totalEarnings userB + 100"
    and "referrals w' = referrals world0 @
                      [\<lparr>rid = referralIdAt env0 (tick world0 + 2), referrerId = ''user_2_b'', referredId = ''user_3_c'',
                        level = 1, earnings = 100, r_createdAt = clock env0 (tick world0 + 4)\<rparr>]"
    by blast
  then show ?thesis using h0 h1 t by (simp add: world0_def)
qed

text \<open>
  The identifier is not checked against the store. When it is already the key of a
  stored record, \<^verbatim>\<open>add\<close> fails with a \<^verbatim>\<open>ConstraintError\<close> after the user has been
  written back: the user is credited, no record is appended, and the call rejects.
\<close>

declare digits.simps [simp del]

lemma digits_nonempty: "digits n \<noteq> []"
  by (subst digits.simps) simp

lemma digits_small: "n < 10 \<Longrightarrow> digits n = [char_of (48 + n)]"
  by (subst digits.simps) simp

lemma digits_large: "\<not> n < 10 \<Longrightarrow> digits n = digits (n div 10) @ [char_of (48 + n mod 10)]"
  by (subst digits.simps) simp

lemma addReferral_clash:
  "fault env (tick w) = None \<Longrightarrow> rid r \<in> rid ` set (referrals w) \<Longrightarrow>
     addReferral env r w = Some (Inl constraintError, w\<lparr>tick := Suc (tick w)\<rparr>)"
  by (simp add: addReferral_def request_def)

lemma awardEarnings_clash:
  assumes f0: "fault env (tick w) = None"
    and f1: "fault env (tick w + 1) = None"
    and f5: "fault env (tick w + 5) = None"
    and r: "userById w i = Some r"
    and clash: "referralIdAt env (tick w + 2) \<in> rid ` set (referrals w)"
  shows "awardEarnings env i nu lvl amount w
           = Some (Inl constraintError,
                   w\<lparr>users := put (credit lvl amount r) (users w), tick := tick w + 6\<rparr>)"
  unfolding awardEarnings_unfold
  apply (rule await_step, rule getUserById_ok, rule f0)
  apply (simp only: r option.case)
  apply (rule await_step, rule updateUser_ok, simp add: f1 [simplified])
  apply (rule await_step, rule generateReferralId_ok)
  apply (rule await_step, simp add: dateNow_def)
  apply (rule await_Inl)
  apply (subst addReferral_clash)
  using f5 clash
    apply (simp_all add: eval_nat_numeral)
  done

lemma numberToString_example: "numberToString 1700000000302 = ''1700000000302''"
  by (simp add: numberToString_def digits_large digits_small) code_simp

lemma referralIdAt_env0_2: "referralIdAt env0 2 = ''ref_1700000000302_k3x9q2m1z''"
  by (simp add: referralIdAt_def env0_def numberToString_example)

text \<open>
  C7. \<^verbatim>\<open>awardEarnings\<close> is to append, for a stored referrer, exactly one new referral
  record carrying a fresh unique id. The code does not make the id unique:
  \<^verbatim>\<open>generateReferralId\<close>, documented as generating a unique referral ID, joins the clock
  and a random string and never looks at the store, whereas \<^verbatim>\<open>generateReferralCode\<close> of
  the AuthManager draws again until its code is unused. In the example database holding
  one record under the identifier that the clock and the random string give next, the
  award of 100 at level 1 to Bob for Carol rejects with the \<^verbatim>\<open>ConstraintError\<close>: Bob's
  \<open>totalEarnings\<close> goes from 0 to 100 and his \<open>level1\<close> bucket with it, and the referrals
  store still holds the one earlier record and none for this award.
\<close>

theorem awardEarnings_id_collision:
  "awardEarnings env0 ''user_2_b'' ''user_3_c'' 1 100 worldClash
     = Some (Inl constraintError,
             worldClash\<lparr>users := [credit 1 100 userA, credit 1 100 userB, userC], tick := 6\<rparr>)
   \<and> userById worldClash ''user_2_b'' = Some userB
   \<and> totalEarnings userB = 0
   \<and> totalEarnings (credit 1 100 userB) = 100
   \<and> level1 (earningsByLevel (credit 1 100 userB)) = 100
   \<and> map rid (referrals worldClash) = [''ref_1700000000302_k3x9q2m1z'']
   \<and> map referredId (referrals worldClash) = [''user_2_b'']
   \<and> map totalEarnings (users worldClash) = [100, 0, 0]"
proof -
  have u: "userById worldClash ''user_2_b'' = Some userB"
    by (simp add: worldClash_def world0_def userA_def userB_def userC_def newUserObject_def userById_def
        credit_def Let_def)
  have c: "referralIdAt env0 (tick worldClash + 2) \<in> rid ` set (referrals worldClash)"
  proof -
    have "tick worldClash + 2 = 2" by (simp add: worldClash_def world0_def)
    then show ?thesis by (simp only: referralIdAt_env0_2) (simp add: worldClash_def)
  qed
  have p: "put (credit 1 100 userB) (users worldClash) = [credit 1 100 userA, credit 1 100 userB, userC]"
    by (simp add: worldClash_def world0_def userA_def userB_def userC_def newUserObject_def
        credit_def Let_def)
  have "awardEarnings env0 ''user_2_b'' ''user_3_c'' 1 100 worldClash
          = Some (Inl constraintError,
                  worldClash\<lparr>users := put (credit 1 100 userB) (users worldClash),
                              tick := tick worldClash + 6\<rparr>)"
    by (rule awardEarnings_clash [OF _ _ _ u c]) (simp_all add: env0_def)
  then have e: "awardEarnings env0 ''user_2_b'' ''user_3_c'' 1 100 worldClash
     = Some (Inl constraintError,
             worldClash\<lparr>users := [credit 1 100 userA, credit 1 100 userB, userC], tick := 6\<rparr>)"
    by (simp add: p) (simp add: worldClash_def world0_def)
  have t: "totalEarnings userB = 0 \<and> totalEarnings (credit 1 100 userB) = 100
           \<and> level1 (earningsByLevel (credit 1 100 userB)) = 100"
    by (simp add: userB_def newUserObject_def credit_def Let_def)
  have s: "map rid (referrals worldClash) = [''ref_1700000000302_k3x9q2m1z'']
           \<and> map referredId (referrals worldClash) = [''user_2_b'']"
    by (simp add: worldClash_def)
  have m: "map totalEarnings (users worldClash) = [100, 0, 0]"
    by (simp add: worldClash_def userA_def userB_def userC_def newUserObject_def credit_def Let_def)
  from e u t s m show ?thesis by simp
qed

text \<open>
  C9. The bucket dispatch of \<^verbatim>\<open>awardEarnings\<close> has a branch for every integer level:
  the call resolves for each level, and for each level other than 1, 2 and 3 (zero,
  negative, four and above) the amount goes to the \<open>level4Plus\<close> bucket and to no other.
\<close>

theorem awardEarnings_level_total:
  assumes "userById w i = Some r"
    and "fault env (tick w) = None" and "fault env (tick w + 1) = None"
    and "fault env (tick w + 5) = None"
    and "referralIdAt env (tick w + 2) \<notin> rid ` set (referrals w)"
  shows "\<exists>w'. awardEarnings env i nu lvl amount w = Some (Inr (), w')
            \<and> (lvl \<noteq> 1 \<and> lvl \<noteq> 2 \<and> lvl \<noteq> 3 \<longrightarrow>
                 userById w' i
                   = Some (r\<lparr>totalEarnings := totalEarnings r + amount,
                            earningsByLevel := (earningsByLevel r)
                              \<lparr>level4Plus := level4Plus (earningsByLevel r) + amount\<rparr>\<rparr>))"
proof -
  have "uid r = i" using assms(1) by (rule userById_uid)
  then show ?thesis
    unfolding awardEarnings_ok [OF assms(2-4) assms(1) assms(5)]
    by (simp add: userById_awarded, simp add: credit_def Let_def)
qed

theorem awardEarnings_level_total_witness:
  "userById world0 ''user_1_a'' = Some userA
   \<and> fault env0 (tick world0) = None \<and> fault env0 (tick world0 + 1) = None
   \<and> fault env0 (tick world0 + 5) = None
   \<and> referralIdAt env0 (tick world0 + 2) \<notin> rid ` set (referrals world0)
   \<and> (\<exists>w'. awardEarnings env0 ''user_1_a'' ''user_3_c'' (- 7) 20 world0 = Some (Inr (), w')
          \<and> userById w' ''user_1_a''
              = Some (userA\<lparr>totalEarnings := 20,
                        earningsByLevel := \<lparr>level1 = 0, level2 = 0, level3 = 0, level4Plus = 20\<rparr>\<rparr>))"
proof -
  have h1: "userById world0 ''user_1_a'' = Some userA"
    by (simp add: world0_def userA_def newUserObject_def userById_def)
  have h2: "fault env0 (tick world0) = None" "fault env0 (tick world0 + 1) = None"
    "fault env0 (tick world0 + 5) = None"
    by (simp_all add: env0_def)
  have h3: "referralIdAt env0 (tick world0 + 2) \<notin> rid ` set (referrals world0)"
    by (simp add: world0_def)
  show ?thesis
    using awardEarnings_level_total [OF h1 h2 h3, of "''user_3_c''" "- 7" 20] h1 h2 h3
    by (simp add: userA_def newUserObject_def)
qed

section \<open>What every outcome of a computation preserves\<close>

lemma preservesI: "(\<And>w r w'. m w = Some (r, w') \<Longrightarrow> R w w') \<Longrightarrow> preserves R m"
  by (simp add: preserves_def)

lemma preservesD: "preserves R m \<Longrightarrow> m w = Some (r, w') \<Longrightarrow> R w w'"
  by (simp add: preserves_def)

lemma stable_refl: "stable R \<Longrightarrow> R w w"
  by (simp add: stable_def)

lemma stable_trans: "stable R \<Longrightarrow> R a b \<Longrightarrow> R b c \<Longrightarrow> R a c"
  unfolding stable_def by blast

lemma stable_tick: "stable R \<Longrightarrow> R w (w\<lparr>tick := t\<rparr>)"
  by (simp add: stable_def)

lemma preserves_resolve: "stable R \<Longrightarrow> preserves R (resolve a)"
  by (auto simp: preserves_def resolve_def stable_refl)

lemma preserves_reject: "stable R \<Longrightarrow> preserves R (reject e)"
  by (auto simp: preserves_def reject_def stable_refl)

lemma preserves_diverge: "preserves R diverge"
  by (simp add: preserves_def diverge_def)

lemma preserves_await:
  assumes "stable R" and "preserves R m" and "\<And>a. preserves R (f a)"
  shows "preserves R (await m f)"
proof (rule preservesI)
  fix w r w'
  assume a: "await m f w = Some (r, w')"
  show "R w w'"
  proof (cases "m w")
    case None
    with a show ?thesis by (simp add: await_def)
  next
    case (Some p)
    obtain x w1 where p: "p = (x, w1)" by (cases p)
    have 1: "R w w1" using assms(2) Some p by (auto dest: preservesD)
    show ?thesis
    proof (cases x)
      case (Inl e)
      with a Some p have "w' = w1" by (simp add: await_def)
      with 1 show ?thesis by simp
    next
      case (Inr v)
      with a Some p have "f v w1 = Some (r, w')" by (simp add: await_def)
      then have "R w1 w'" using assms(3) by (auto dest: preservesD)
      with 1 assms(1) show ?thesis by (blast intro: stable_trans)
    qed
  qed
qed

lemma preserves_forOf:
  assumes "stable R" and "\<And>x acc. preserves R (body x acc)"
  shows "preserves R (forOf xs body acc)"
  by (induction xs arbitrary: acc)
     (auto intro!: preserves_resolve preserves_await assms)

lemma preserves_request:
  assumes "stable R" and "\<And>w a w2. op w = Inr (a, w2) \<Longrightarrow> R w w2"
  shows "preserves R (request env op)"
proof (rule preservesI)
  fix w r w'
  assume a: "request env op w = Some (r, w')"
  let ?w1 = "w\<lparr>tick := Suc (tick w)\<rparr>"
  have 1: "R w ?w1" using assms(1) by (rule stable_tick)
  from a have "w' = ?w1 \<or> (\<exists>x. op ?w1 = Inr (x, w'))"
    by (auto simp: request_def Let_def split: option.splits sum.splits)
  then show "R w w'"
    using 1 assms by (blast intro: stable_trans)
qed

lemma preserves_read:
  assumes "stable R"
  shows "preserves R (request env (\<lambda>w. Inr (g w, w)))"
  using assms by (intro preserves_request) (simp_all add: stable_refl)

lemma preserves_reads:
  assumes "stable R"
  shows "preserves R (getUserById env i)" "preserves R (getUserByReferralCode env c)"
    "preserves R (getAllUsers env)" "preserves R (getReferralsByReferrer env i)"
    "preserves R (getAllReferrals env)" "preserves R (dateNow env)"
    "preserves R (mathRandom36 env)"
  unfolding getUserById_def getUserByReferralCode_def getAllUsers_def
    getReferralsByReferrer_def getAllReferrals_def
  by (simp_all add: preserves_read [OF assms])
     (simp_all add: preserves_def dateNow_def mathRandom36_def stable_tick [OF assms])

lemma preserves_generateReferralId: "stable R \<Longrightarrow> preserves R (generateReferralId env)"
  unfolding generateReferralId_def
  by (intro preserves_await preserves_resolve preserves_reads)

lemma preserves_addReferral:
  assumes "stable R" and "\<And>w r. R w (w\<lparr>referrals := referrals w @ [r]\<rparr>)"
  shows "preserves R (addReferral env r)"
  unfolding addReferral_def
  by (rule preserves_request) (auto simp: assms split: if_splits)

lemma preserves_record_award:
  assumes "stable R" and "\<And>w r. R w (w\<lparr>referrals := referrals w @ [r]\<rparr>)"
  shows "preserves R
      (await (generateReferralId env) (\<lambda>newId.
       await (dateNow env) (\<lambda>now.
       await (addReferral env
                \<lparr>rid = newId, referrerId = i, referredId = nu,
                 level = lvl, earnings = amount, r_createdAt = now\<rparr>) (\<lambda>_.
       resolve ()))))"
  by (intro preserves_await preserves_resolve preserves_reads preserves_generateReferralId
      preserves_addReferral assms)

lemma await_SomeE:
  assumes "await m f w = Some (res, w')"
  obtains (rejected) e where "m w = Some (Inl e, w')" and "res = Inl e"
        | (continued) a w1 where "m w = Some (Inr a, w1)" and "f a w1 = Some (res, w')"
  using assms by (auto simp: await_def split: option.splits sum.splits)

lemma request_InrD:
  "request env op w = Some (Inr a, w2) \<Longrightarrow> op (w\<lparr>tick := Suc (tick w)\<rparr>) = Inr (a, w2)"
  by (auto simp: request_def Let_def split: option.splits sum.splits)

lemma request_InlD:
  "request env op w = Some (Inl e, w2) \<Longrightarrow> w2 = w\<lparr>tick := Suc (tick w)\<rparr>"
  by (auto simp: request_def Let_def split: option.splits sum.splits)

lemma getUserById_InrD:
  "getUserById env i w = Some (Inr x, w1) \<Longrightarrow> x = userById w i \<and> w1 = w\<lparr>tick := Suc (tick w)\<rparr>"
  unfolding getUserById_def by (drule request_InrD) auto

lemma getUserByReferralCode_InrD:
  "getUserByReferralCode env c w = Some (Inr x, w1)
     \<Longrightarrow> x = userByReferralCode w c \<and> w1 = w\<lparr>tick := Suc (tick w)\<rparr>"
  unfolding getUserByReferralCode_def by (drule request_InrD) auto

lemma updateUser_InrD:
  "updateUser env u w = Some (Inr x, w2)
     \<Longrightarrow> w2 = w\<lparr>tick := Suc (tick w), users := put u (users w)\<rparr>"
  unfolding updateUser_def by (drule request_InrD) auto

lemma updateUser_InlD:
  "updateUser env u w = Some (Inl e, w2) \<Longrightarrow> w2 = w\<lparr>tick := Suc (tick w)\<rparr>"
  unfolding updateUser_def by (rule request_InlD)

lemma preserves_awardEarnings:
  assumes "stable R" and "awardClosed P R" and "P amount"
  shows "preserves R (awardEarnings env i nu lvl amount)"
proof (rule preservesI)
  fix w res w'
  assume "awardEarnings env i nu lvl amount w = Some (res, w')"
  then have a: "await (getUserById env i) (\<lambda>referrer.
       case referrer of
         None \<Rightarrow> resolve ()
       | Some r \<Rightarrow>
           await (updateUser env (credit lvl amount r)) (\<lambda>_.
           await (generateReferralId env) (\<lambda>newId.
           await (dateNow env) (\<lambda>now.
           await (addReferral env
                    \<lparr>rid = newId, referrerId = i, referredId = nu,
                     level = lvl, earnings = amount, r_createdAt = now\<rparr>) (\<lambda>_.
           resolve ()))))) w = Some (res, w')"
    by (simp only: awardEarnings_unfold)
  have "\<And>w r. R w (w\<lparr>referrals := referrals w @ [r]\<rparr>)"
    using assms(2) by (simp add: awardClosed_def)
  then have rest: "preserves R
      (await (generateReferralId env) (\<lambda>newId.
       await (dateNow env) (\<lambda>now.
       await (addReferral env
                \<lparr>rid = newId, referrerId = i, referredId = nu,
                 level = lvl, earnings = amount, r_createdAt = now\<rparr>) (\<lambda>_.
       resolve ()))))"
    by (intro preserves_record_award assms(1))
  let ?w1 = "w\<lparr>tick := Suc (tick w)\<rparr>"
  have 1: "R w ?w1" using assms(1) by (rule stable_tick)
  from a show "R w w'"
  proof (cases rule: await_SomeE)
    case (rejected e)
    then show ?thesis using preserves_reads(1) [OF assms(1)] by (blast dest: preservesD)
  next
    case (continued x w1)
    from getUserById_InrD [OF continued(1)]
    have x: "x = userById w i" and w1: "w1 = ?w1" by simp_all
    show ?thesis
    proof (cases x)
      case None
      with continued(2) have "w' = w1" by (simp add: resolve_def)
      with 1 w1 show ?thesis by simp
    next
      case (Some r)
      let ?r = "credit lvl amount r"
      let ?w1' = "?w1\<lparr>tick := Suc (tick ?w1)\<rparr>"
      let ?w2 = "?w1\<lparr>tick := Suc (tick ?w1), users := put ?r (users ?w1)\<rparr>"
      have s2a: "R ?w1 ?w1'" using assms(1) by (rule stable_tick)
      have "userById ?w1' i = Some r" using Some x by simp
      then have "R ?w1' (?w1'\<lparr>users := put ?r (users ?w1')\<rparr>)"
        using assms(2,3) unfolding awardClosed_def by blast
      then have s2b: "R ?w1' ?w2" by simp
      have 2: "R ?w1 ?w2" using assms(1) s2a s2b by (rule stable_trans)
      from continued(2) Some w1
      have b: "await (updateUser env ?r) (\<lambda>_.
           await (generateReferralId env) (\<lambda>newId.
           await (dateNow env) (\<lambda>now.
           await (addReferral env
                    \<lparr>rid = newId, referrerId = i, referredId = nu,
                     level = lvl, earnings = amount, r_createdAt = now\<rparr>) (\<lambda>_.
           resolve ())))) ?w1 = Some (res, w')"
        by simp
      from b show ?thesis
      proof (cases rule: await_SomeE)
        case (rejected e)
        from updateUser_InlD [OF rejected(1)] have "w' = ?w1'" .
        with stable_trans [OF assms(1) 1 s2a] show ?thesis by simp
      next
        case (continued y w2)
        from updateUser_InrD [OF continued(1)] have "w2 = ?w2" .
        moreover from continued(2) rest have "R w2 w'" by (rule preservesD [rotated])
        ultimately have "R ?w2 w'" by simp
        from stable_trans [OF assms(1) stable_trans [OF assms(1) 1 2] this]
        show ?thesis .
      qed
    qed
  qed
qed

lemma preserves_case_option:
  "preserves R a \<Longrightarrow> (\<And>y. preserves R (f y)) \<Longrightarrow> preserves R (case x of None \<Rightarrow> a | Some y \<Rightarrow> f y)"
  by (cases x) simp_all

lemma preserves_ifTruthy:
  "stable R \<Longrightarrow> (\<And>c. preserves R (body c)) \<Longrightarrow> preserves R (ifTruthy rb body)"
  by (auto simp: ifTruthy_def preserves_resolve split: option.splits)

lemma preserves_level4Loop:
  assumes "stable R" and "awardClosed P R" and "P (rs_level4Plus rewardStructure)"
  shows "preserves R (level4Loop n env nu cur lvl)"
proof (induction n arbitrary: cur lvl)
  case 0
  show ?case by (simp add: preserves_diverge)
next
  case (Suc n)
  show ?case
    unfolding level4Loop.simps
    by (intro preserves_ifTruthy preserves_await preserves_case_option preserves_resolve
        preserves_reads preserves_awardEarnings [OF assms] Suc assms(1))
qed

lemma preserves_processBody:
  assumes "stable R" and "awardClosed P R"
    and "P (rs_level1 rewardStructure)" and "P (rs_level2 rewardStructure)"
    and "P (rs_level3 rewardStructure)" and "P (rs_level4Plus rewardStructure)"
  shows "preserves R (processBody fuel env nu code)"
  unfolding processBody_def
  by (intro preserves_ifTruthy preserves_await preserves_case_option preserves_resolve
      preserves_reject preserves_reads preserves_level4Loop [OF assms(1,2,6)]
      preserves_awardEarnings [OF assms(1,2,3)] preserves_awardEarnings [OF assms(1,2,4)]
      preserves_awardEarnings [OF assms(1,2,5)] assms(1))

lemma preserves_processNewReferral:
  assumes "stable R" and "awardClosed P R"
    and "P (rs_level1 rewardStructure)" and "P (rs_level2 rewardStructure)"
    and "P (rs_level3 rewardStructure)" and "P (rs_level4Plus rewardStructure)"
  shows "preserves R (processNewReferral fuel env nu code)"
proof (rule preservesI)
  fix w r w'
  assume "processNewReferral fuel env nu code w = Some (r, w')"
  then obtain r' where "processBody fuel env nu code w = Some (r', w')"
    by (auto simp: processNewReferral_def split: option.splits sum.splits)
  with preserves_processBody [OF assms] show "R w w'" by (rule preservesD)
qed

subsection \<open>Queries\<close>

lemma preserves_getDirectReferrals: "stable R \<Longrightarrow> preserves R (getDirectReferrals env i)"
  unfolding getDirectReferrals_def
  by (intro preserves_await preserves_case_option preserves_resolve preserves_reads)

lemma preserves_buildReferralTree: "stable R \<Longrightarrow> preserves R (buildReferralTree n env i)"
proof (induction n arbitrary: i)
  case 0
  show ?case by (simp add: preserves_diverge)
next
  case (Suc n)
  show ?case
    unfolding buildReferralTree.simps
    by (intro preserves_await preserves_case_option preserves_resolve preserves_reads
        preserves_getDirectReferrals preserves_forOf Suc)
qed

lemma preserves_getReferralStats: "stable R \<Longrightarrow> preserves R (getReferralStats n env i)"
  unfolding getReferralStats_def
  by (intro preserves_await preserves_case_option preserves_resolve preserves_buildReferralTree)

lemma preserves_getNetworkSize: "stable R \<Longrightarrow> preserves R (getNetworkSize n env i)"
  unfolding getNetworkSize_def
  by (intro preserves_await preserves_case_option preserves_resolve preserves_buildReferralTree)

lemma preserves_uplineLoop: "stable R \<Longrightarrow> preserves R (uplineLoop n env cur upline)"
proof (induction n arbitrary: cur upline)
  case 0
  show ?case by (simp add: preserves_diverge)
next
  case (Suc n)
  show ?case
    unfolding uplineLoop.simps
    by (auto intro!: preserves_await preserves_resolve preserves_reads Suc
        split: option.splits)
qed

lemma preserves_getUpline: "stable R \<Longrightarrow> preserves R (getUpline n env i)"
  unfolding getUpline_def
  by (auto intro!: preserves_await preserves_resolve preserves_reads preserves_uplineLoop
      split: option.splits)

lemma preserves_getEarningsBreakdown: "stable R \<Longrightarrow> preserves R (getEarningsBreakdown env i)"
  unfolding getEarningsBreakdown_def
  by (intro preserves_await preserves_resolve preserves_reads preserves_forOf)

lemma preserves_getSystemStats: "stable R \<Longrightarrow> preserves R (getSystemStats env)"
  unfolding getSystemStats_def
  by (intro preserves_await preserves_resolve preserves_reads)

lemma stable_sameStores: "stable sameStores"
  by (simp add: stable_def sameStores_def)

section \<open>The earnings invariant\<close>

lemma stable_keepsInvariant: "stable keepsInvariant"
  by (simp add: stable_def keepsInvariant_def earningsInvariant_def)

lemma set_put: "set (put u xs) \<subseteq> insert u (set xs)"
  by (induction xs) auto

lemma bucketsSumToTotal_credit:
  "bucketsSumToTotal r \<Longrightarrow> bucketsSumToTotal (credit lvl amount r)"
  by (simp add: bucketsSumToTotal_def credit_def Let_def)

lemma userById_mem: "userById w i = Some r \<Longrightarrow> r \<in> set (users w)"
  by (auto simp: userById_def find_Some_iff)

lemma awardClosed_keepsInvariant: "awardClosed (\<lambda>_. True) keepsInvariant"
  unfolding awardClosed_def keepsInvariant_def earningsInvariant_def
  using set_put bucketsSumToTotal_credit userById_mem
  by (auto, blast)

lemma awardEarnings_InrD:
  assumes "awardEarnings env i nu lvl amount w = Some (Inr x, w')" and "userById w i = Some r"
  shows "users w' = put (credit lvl amount r) (users w)"
proof -
  let ?R = "\<lambda>a b. users b = users a"
  have st: "stable ?R" by (simp add: stable_def)
  from assms(1) have a: "await (getUserById env i) (\<lambda>referrer.
       case referrer of
         None \<Rightarrow> resolve ()
       | Some r \<Rightarrow>
           await (updateUser env (credit lvl amount r)) (\<lambda>_.
           await (generateReferralId env) (\<lambda>newId.
           await (dateNow env) (\<lambda>now.
           await (addReferral env
                    \<lparr>rid = newId, referrerId = i, referredId = nu,
                     level = lvl, earnings = amount, r_createdAt = now\<rparr>) (\<lambda>_.
           resolve ()))))) w = Some (Inr x, w')"
    by (simp only: awardEarnings_unfold)
  from a show ?thesis
  proof (cases rule: await_SomeE)
    case (rejected e)
    then show ?thesis by simp
  next
    case (continued y w1)
    from getUserById_InrD [OF continued(1)] assms(2)
    have y: "y = Some r" and w1: "w1 = w\<lparr>tick := Suc (tick w)\<rparr>" by simp_all
    from continued(2) y
    have b: "await (updateUser env (credit lvl amount r)) (\<lambda>_.
           await (generateReferralId env) (\<lambda>newId.
           await (dateNow env) (\<lambda>now.
           await (addReferral env
                    \<lparr>rid = newId, referrerId = i, referredId = nu,
                     level = lvl, earnings = amount, r_createdAt = now\<rparr>) (\<lambda>_.
           resolve ())))) w1 = Some (Inr x, w')"
      by simp
    from b show ?thesis
    proof (cases rule: await_SomeE)
      case (rejected e)
      then show ?thesis by simp
    next
      case (continued z w2)
      from updateUser_InrD [OF continued(1)]
      have "users w2 = put (credit lvl amount r) (users w)" using w1 by simp
      moreover have "preserves ?R
          (await (generateReferralId env) (\<lambda>newId.
           await (dateNow env) (\<lambda>now.
           await (addReferral env
                    \<lparr>rid = newId, referrerId = i, referredId = nu,
                     level = lvl, earnings = amount, r_createdAt = now\<rparr>) (\<lambda>_.
           resolve ()))))"
        by (rule preserves_record_award [OF st]) simp
      from preservesD [OF this continued(2)] have "users w' = users w2" .
      ultimately show ?thesis by simp
    qed
  qed
qed

text \<open>
  C3. For every user the four buckets of \<open>earningsByLevel\<close> add up to \<open>totalEarnings\<close>,
  and every operation keeps it so. It holds in an empty database; a new user is created
  with the total and the four buckets at zero, and adding that user keeps it; a
  completed award raises the total and exactly one bucket of the stored referrer by the
  amount; \<^verbatim>\<open>awardEarnings\<close> and \<^verbatim>\<open>processNewReferral\<close> keep it however they settle; and
  the queries of the engine leave both stores as they were.
\<close>

theorem earnings_invariant_preserved:
  "earningsInvariant (w\<lparr>users := []\<rparr>)
   \<and> totalEarnings (newUserObject newId name mail hash code rb admin now) = 0
   \<and> earningsByLevel (newUserObject newId name mail hash code rb admin now)
       = \<lparr>level1 = 0, level2 = 0, level3 = 0, level4Plus = 0\<rparr>
   \<and> bucketsSumToTotal (newUserObject newId name mail hash code rb admin now)
   \<and> preserves keepsInvariant (addUser env (newUserObject newId name mail hash code rb admin now))
   \<and> (\<forall>r x w'. userById w i = Some r
          \<and> awardEarnings env i nu lvl amount w = Some (Inr x, w') \<longrightarrow>
        (\<exists>r'. userById w' i = Some r'
           \<and> totalEarnings r' = totalEarnings r + amount
           \<and> (let e = earningsByLevel r; e' = earningsByLevel r' in
               (level1 e', level2 e', level3 e', level4Plus e')
                 \<in> {(level1 e + amount, level2 e, level3 e, level4Plus e),
                     (level1 e, level2 e + amount, level3 e, level4Plus e),
                     (level1 e, level2 e, level3 e + amount, level4Plus e),
                     (level1 e, level2 e, level3 e, level4Plus e + amount)})))
   \<and> preserves keepsInvariant (awardEarnings env i nu lvl amount)
   \<and> preserves keepsInvariant (processNewReferral fuel env nu code)
   \<and> preserves sameStores (getDirectReferrals env i)
   \<and> preserves sameStores (buildReferralTree fuel env i)
   \<and> preserves sameStores (getReferralStats fuel env i)
   \<and> preserves sameStores (getUpline fuel env i)
   \<and> preserves sameStores (getEarningsBreakdown env i)
   \<and> preserves sameStores (getNetworkSize fuel env i)
   \<and> preserves sameStores (getSystemStats env)"
proof -
  let ?u = "newUserObject newId name mail hash code rb admin now"
  have new: "bucketsSumToTotal ?u"
    by (simp add: bucketsSumToTotal_def newUserObject_def)
  have add: "preserves keepsInvariant (addUser env ?u)"
    unfolding addUser_def
    by (rule preserves_request [OF stable_keepsInvariant])
       (auto simp: keepsInvariant_def earningsInvariant_def new split: if_splits)
  have award: "\<forall>r x w'. userById w i = Some r
          \<and> awardEarnings env i nu lvl amount w = Some (Inr x, w') \<longrightarrow>
        (\<exists>r'. userById w' i = Some r'
           \<and> totalEarnings r' = totalEarnings r + amount
           \<and> (let e = earningsByLevel r; e' = earningsByLevel r' in
               (level1 e', level2 e', level3 e', level4Plus e')
                 \<in> {(level1 e + amount, level2 e, level3 e, level4Plus e),
                     (level1 e, level2 e + amount, level3 e, level4Plus e),
                     (level1 e, level2 e, level3 e + amount, level4Plus e),
                     (level1 e, level2 e, level3 e, level4Plus e + amount)}))"
  proof (intro allI impI)
    fix r x w'
    assume h: "userById w i = Some r \<and> awardEarnings env i nu lvl amount w = Some (Inr x, w')"
    then have "users w' = put (credit lvl amount r) (users w)"
      using awardEarnings_InrD by blast
    moreover have "uid r = i" using h userById_uid by blast
    ultimately have "userById w' i = Some (credit lvl amount r)"
      by (simp add: userById_def find_put_id)
    then show "\<exists>r'. userById w' i = Some r'
           \<and> totalEarnings r' = totalEarnings r + amount
           \<and> (let e = earningsByLevel r; e' = earningsByLevel r' in
               (level1 e', level2 e', level3 e', level4Plus e')
                 \<in> {(level1 e + amount, level2 e, level3 e, level4Plus e),
                     (level1 e, level2 e + amount, level3 e, level4Plus e),
                     (level1 e, level2 e, level3 e + amount, level4Plus e),
                     (level1 e, level2 e, level3 e, level4Plus e + amount)})"
      by (simp add: credit_def Let_def)
  qed
  note ro = stable_sameStores
  show ?thesis
    using new add award
    by (simp add: earningsInvariant_def newUserObject_def
        preserves_awardEarnings [OF stable_keepsInvariant awardClosed_keepsInvariant]
        preserves_processNewReferral [OF stable_keepsInvariant awardClosed_keepsInvariant]
        preserves_getDirectReferrals [OF ro] preserves_buildReferralTree [OF ro]
        preserves_getReferralStats [OF ro] preserves_getUpline [OF ro]
        preserves_getEarningsBreakdown [OF ro] preserves_getNetworkSize [OF ro]
        preserves_getSystemStats [OF ro])
qed

theorem earnings_invariant_preserved_witness:
  "earningsInvariant world0
   \<and> userById world0 ''user_2_b'' = Some userB
   \<and> awardEarnings env0 ''user_2_b'' ''user_3_c'' 1 100 world0
       = Some (Inr (), awarded env0 ''user_2_b'' ''user_3_c'' 1 100 userB world0)
   \<and> earningsInvariant (awarded env0 ''user_2_b'' ''user_3_c'' 1 100 userB world0)
   \<and> (\<exists>r'. userById (awarded env0 ''user_2_b'' ''user_3_c'' 1 100 userB world0) ''user_2_b'' = Some r'
          \<and> totalEarnings r' = totalEarnings userB + 100)"
proof -
  let ?w1 = "awarded env0 ''user_2_b'' ''user_3_c'' 1 100 userB world0"
  have inv0: "earningsInvariant world0"
    by (simp add: earningsInvariant_def bucketsSumToTotal_def world0_def userA_def userB_def
        userC_def newUserObject_def)
  have b: "userById world0 ''user_2_b'' = Some userB"
    by (simp add: world0_def userA_def userB_def userC_def newUserObject_def userById_def)
  have eq: "awardEarnings env0 ''user_2_b'' ''user_3_c'' 1 100 world0 = Some (Inr (), ?w1)"
    by (rule awardEarnings_ok) (simp_all add: env0_def b, simp add: world0_def)
  note inst = earnings_invariant_preserved [of world0 _ _ _ _ _ _ _ _ env0 "''user_2_b''"
      "''user_3_c''" 1 100]
  from inst have "preserves keepsInvariant (awardEarnings env0 ''user_2_b'' ''user_3_c'' 1 100)"
    by blast
  from preservesD [OF this eq] inv0 have inv1: "earningsInvariant ?w1"
    by (simp add: keepsInvariant_def)
  from inst b eq
  have "\<exists>r'. userById ?w1 ''user_2_b'' = Some r' \<and> totalEarnings r' = totalEarnings userB + 100"
    by blast
  with inv0 b eq inv1 show ?thesis by blast
qed

section \<open>Calls that cannot start the chain\<close>

lemma processBody_unresolved:
  assumes "userById w nu = None \<or> userByReferralCode w code = None"
  shows "\<exists>m w'. processBody fuel env nu code w = Some (Inl m, w')
           \<and> users w' = users w \<and> referrals w' = referrals w
           \<and> (fault env (tick w) = None \<and> userById w nu = None \<longrightarrow> m = ''User not found'')
           \<and> (fault env (tick w) = None \<and> fault env (tick w + 1) = None
                \<and> userById w nu \<noteq> None \<longrightarrow> m = ''Referrer not found'')"
proof -
  let ?w1 = "w\<lparr>tick := Suc (tick w)\<rparr>"
  let ?w2 = "w\<lparr>tick := Suc (Suc (tick w))\<rparr>"
  show ?thesis
  proof (cases "fault env (tick w)")
    case (Some m)
    then have "getUserById env nu w = Some (Inl m, ?w1)"
      by (simp add: getUserById_def request_def)
    then have "processBody fuel env nu code w = Some (Inl m, ?w1)"
      unfolding processBody_def by (rule await_Inl)
    with Some show ?thesis by simp
  next
    case None
    note g = getUserById_ok [OF None, of nu]
    show ?thesis
    proof (cases "userById w nu")
      case None
      have "processBody fuel env nu code w = Some (Inl ''User not found'', ?w1)"
        unfolding processBody_def
        by (rule await_step, rule g) (simp add: None reject_def)
      with None show ?thesis by simp
    next
      case (Some u)
      with assms have nocode: "userByReferralCode w code = None" by simp
      show ?thesis
      proof (cases "fault env (Suc (tick w))")
        case (Some m)
        then have l: "getUserByReferralCode env code ?w1 = Some (Inl m, ?w2)"
          by (simp add: getUserByReferralCode_def request_def)
        have "processBody fuel env nu code w = Some (Inl m, ?w2)"
          unfolding processBody_def
          by (rule await_step, rule g) (simp add: \<open>userById w nu = Some u\<close> await_def l)
        with Some \<open>userById w nu = Some u\<close> show ?thesis by simp
      next
        case None
        then have l: "getUserByReferralCode env code ?w1 = Some (Inr None, ?w2)"
          using getUserByReferralCode_ok [of env ?w1 code] nocode by simp
        have "processBody fuel env nu code w = Some (Inl ''Referrer not found'', ?w2)"
          unfolding processBody_def
          by (rule await_step, rule g)
             (simp add: \<open>userById w nu = Some u\<close> await_def l reject_def)
        then show ?thesis using \<open>userById w nu = Some u\<close> by simp
      qed
    qed
  qed
qed

text \<open>
  C4. When the referral code resolves to no user, or the new user's id resolves to no
  user, \<^verbatim>\<open>processNewReferral\<close> returns a failure object with a message, appends no
  referral record and leaves every user record as it was. When the lookups themselves
  succeed the message is that of the \<^verbatim>\<open>throw\<close> statement.
\<close>

theorem processNewReferral_unresolved:
  assumes "userById w nu = None \<or> userByReferralCode w code = None"
  shows "\<exists>m w'. processNewReferral fuel env nu code w = Some (Inr (Failure m), w')
           \<and> users w' = users w \<and> referrals w' = referrals w
           \<and> (fault env (tick w) = None \<and> userById w nu = None \<longrightarrow> m = ''User not found'')
           \<and> (fault env (tick w) = None \<and> fault env (tick w + 1) = None
                \<and> userById w nu \<noteq> None \<longrightarrow> m = ''Referrer not found'')"
  using processBody_unresolved [OF assms, of fuel env]
  by (auto simp: processNewReferral_def)

theorem processNewReferral_unresolved_witness:
  "(userById world0 ''user_3_c'' = None \<or> userByReferralCode world0 ''ZZZZZZZ9'' = None)
   \<and> (\<exists>w'. processNewReferral 5 env0 ''user_3_c'' ''ZZZZZZZ9'' world0
              = Some (Inr (Failure ''Referrer not found''), w')
          \<and> users w' = users world0 \<and> referrals w' = [])"
proof -
  have h: "userById world0 ''user_3_c'' = None \<or> userByReferralCode world0 ''ZZZZZZZ9'' = None"
    by (simp add: world0_def userA_def userB_def userC_def newUserObject_def
        userByReferralCode_def)
  have c: "userById world0 ''user_3_c'' \<noteq> None"
    by (simp add: world0_def userA_def userB_def userC_def newUserObject_def userById_def)
  have f: "fault env0 (tick world0) = None \<and> fault env0 (tick world0 + 1) = None"
    by (simp add: env0_def)
  have r: "referrals world0 = []" by (simp add: world0_def)
  from processNewReferral_unresolved [OF h, of 5 env0] c f r
  show ?thesis using h by auto
qed

section \<open>Queries about a user that does not exist\<close>

lemma buildReferralTree_absent:
  assumes "userById w i = None" and "fault env (tick w) = None"
  shows "buildReferralTree (Suc n) env i w = Some (Inr None, w\<lparr>tick := Suc (tick w)\<rparr>)"
  unfolding buildReferralTree.simps
  by (rule await_step, rule getUserById_ok, rule assms(2)) (simp add: assms(1) resolve_def)

text \<open>
  C5, as the code has it. For an id that resolves to no user, and a lookup that itself
  succeeds, no query raises an error: \<^verbatim>\<open>getUpline\<close> returns the empty list,
  \<^verbatim>\<open>getNetworkSize\<close> returns 0, and \<^verbatim>\<open>getReferralStats\<close> returns \<^verbatim>\<open>null\<close> (no
  object of counts).
\<close>

theorem queries_on_unknown_user:
  assumes "userById w i = None" and "fault env (tick w) = None"
  shows "getUpline fuel env i w = Some (Inr [], w\<lparr>tick := Suc (tick w)\<rparr>)
       \<and> getReferralStats (Suc fuel) env i w = Some (Inr None, w\<lparr>tick := Suc (tick w)\<rparr>)
       \<and> getNetworkSize (Suc fuel) env i w = Some (Inr 0, w\<lparr>tick := Suc (tick w)\<rparr>)"
proof (intro conjI)
  show "getUpline fuel env i w = Some (Inr [], w\<lparr>tick := Suc (tick w)\<rparr>)"
    unfolding getUpline_def
    by (rule await_step, rule getUserById_ok, rule assms(2)) (simp add: assms(1) resolve_def)
  show "getReferralStats (Suc fuel) env i w = Some (Inr None, w\<lparr>tick := Suc (tick w)\<rparr>)"
    unfolding getReferralStats_def
    by (rule await_step, rule buildReferralTree_absent [OF assms]) (simp add: resolve_def)
  show "getNetworkSize (Suc fuel) env i w = Some (Inr 0, w\<lparr>tick := Suc (tick w)\<rparr>)"
    unfolding getNetworkSize_def
    by (rule await_step, rule buildReferralTree_absent [OF assms]) (simp add: resolve_def)
qed

theorem queries_on_unknown_user_witness:
  "userById world0 ''user_9_z'' = None \<and> fault env0 (tick world0) = None
   \<and> getUpline 3 env0 ''user_9_z'' world0 = Some (Inr [], world0\<lparr>tick := 1\<rparr>)
   \<and> getReferralStats 4 env0 ''user_9_z'' world0 = Some (Inr None, world0\<lparr>tick := 1\<rparr>)
   \<and> getNetworkSize 4 env0 ''user_9_z'' world0 = Some (Inr 0, world0\<lparr>tick := 1\<rparr>)"
proof -
  have h1: "userById world0 ''user_9_z'' = None"
    by (simp add: world0_def userA_def userB_def userC_def newUserObject_def userById_def)
  have h2: "fault env0 (tick world0) = None" by (simp add: env0_def)
  have t: "tick world0 = 0" by (simp add: world0_def)
  show ?thesis
    using queries_on_unknown_user [OF h1 h2, of 3] h1 h2 by (simp add: t)
qed

text \<open>
  C5 as stated fails for \<^verbatim>\<open>getReferralStats\<close>: for an id that no user has it returns
  \<^verbatim>\<open>null\<close>, not an object with zero counts.
\<close>

theorem getReferralStats_unknown_user_null:
  "userById world0 ''user_9_z'' = None
   \<and> getReferralStats 1 env0 ''user_9_z'' world0 = Some (Inr None, world0\<lparr>tick := 1\<rparr>)
   \<and> getReferralStats 1 env0 ''user_9_z'' world0
       \<noteq> Some (Inr (Some initialStats), world0\<lparr>tick := 1\<rparr>)"
proof -
  have h1: "userById world0 ''user_9_z'' = None"
    by (simp add: world0_def userA_def userB_def userC_def newUserObject_def userById_def)
  have h2: "fault env0 (tick world0) = None" by (simp add: env0_def)
  have t: "tick world0 = 0" by (simp add: world0_def)
  have "getReferralStats (Suc 0) env0 ''user_9_z'' world0
          = Some (Inr None, world0\<lparr>tick := Suc (tick world0)\<rparr>)"
    unfolding getReferralStats_def
    by (rule await_step, rule buildReferralTree_absent [OF h1 h2]) (simp add: resolve_def)
  then show ?thesis using h1 by (simp add: t)
qed

section \<open>Counting the nodes of a tree\<close>

lemma fold_countNodes:
  "fold (\<lambda>child count. count + countNodes child) cs k = k + sum_list (map countNodes cs)"
  by (induction cs arbitrary: k) simp_all

lemma sum_list_pred:
  "(\<And>x. x \<in> set xs \<Longrightarrow> f x = g x - (1::int))
     \<Longrightarrow> sum_list (map f xs) = sum_list (map g xs) - int (length xs)"
  by (induction xs) simp_all

lemma countNodes_treeSize: "countNodes t = treeSize t - 1"
proof (induction t)
  case (Node u cs)
  then have "sum_list (map countNodes cs) = sum_list (map treeSize cs) - int (length cs)"
    by (intro sum_list_pred) simp
  then show ?case by (simp add: fold_countNodes)
qed

lemma fold_countReferrals_total:
  assumes "\<And>c st. c \<in> set cs \<Longrightarrow> totalReferrals (countReferrals c l st) = totalReferrals st + treeSize c"
  shows "totalReferrals (fold (\<lambda>child. countReferrals child l) cs st)
           = totalReferrals st + sum_list (map treeSize cs)"
  using assms by (induction cs arbitrary: st) simp_all

lemma countReferrals_total:
  "0 \<le> lvl \<Longrightarrow> totalReferrals (countReferrals t lvl st)
     = totalReferrals st + (if 0 < lvl then 1 else 0) + (treeSize t - 1)"
proof (induction t arbitrary: lvl st)
  case (Node u cs)
  have "\<And>c st'. c \<in> set cs \<Longrightarrow>
          totalReferrals (countReferrals c (lvl + 1) st') = totalReferrals st' + treeSize c"
    using Node by simp
  from fold_countReferrals_total [of cs "lvl + 1", OF this]
  show ?case by (simp add: Let_def)
qed

lemma getNetworkSize_eq_totalReferrals:
  assumes "getReferralStats n env i w = Some (Inr (Some st), w')"
  shows "getNetworkSize n env i w = Some (Inr (totalReferrals st), w')"
proof -
  from assms have "await (buildReferralTree n env i) (\<lambda>tree.
       case tree of
         None \<Rightarrow> resolve None
       | Some t \<Rightarrow> resolve (Some (countReferrals t 0 initialStats))) w = Some (Inr (Some st), w')"
    by (simp only: getReferralStats_def)
  then show ?thesis
  proof (cases rule: await_SomeE)
    case (rejected e)
    then show ?thesis by simp
  next
    case (continued x w1)
    then obtain t where x: "x = Some t" and st: "st = countReferrals t 0 initialStats"
      and w': "w' = w1"
      by (cases x) (auto simp: resolve_def)
    have "totalReferrals st = countNodes t"
      by (simp add: st countReferrals_total countNodes_treeSize initialStats_def)
    then show ?thesis
      unfolding getNetworkSize_def
      by (intro await_step [where a=x and w'=w1] continued(1)) (simp add: x resolve_def w')
  qed
qed

section \<open>The referrer graph\<close>

lemma referrerGraph_skel:
  "referrerGraph w =
     {(i, j). \<exists>c rb c' rb'. (i, c, rb) \<in> set (map skel (users w))
                 \<and> (j, c', rb') \<in> set (map skel (users w)) \<and> rb = Some c'}"
proof (intro set_eqI iffI)
  fix p
  assume "p \<in> referrerGraph w"
  then obtain u v where p: "p = (uid u, uid v)" and u: "u \<in> set (users w)"
    and v: "v \<in> set (users w)" and e: "referredBy u = Some (referralCode v)"
    by (auto simp: referrerGraph_def)
  have "skel u \<in> set (map skel (users w))" "skel v \<in> set (map skel (users w))"
    using u v by simp_all
  then have "(uid u, referralCode u, referredBy u) \<in> set (map skel (users w))"
    "(uid v, referralCode v, referredBy v) \<in> set (map skel (users w))"
    by (simp_all only: skel_def)
  with e p show "p \<in> {(i, j). \<exists>c rb c' rb'. (i, c, rb) \<in> set (map skel (users w))
                 \<and> (j, c', rb') \<in> set (map skel (users w)) \<and> rb = Some c'}"
    by blast
next
  fix p
  assume "p \<in> {(i, j). \<exists>c rb c' rb'. (i, c, rb) \<in> set (map skel (users w))
                 \<and> (j, c', rb') \<in> set (map skel (users w)) \<and> rb = Some c'}"
  then obtain i j c c' rb' where p: "p = (i, j)"
    and 1: "(i, c, Some c') \<in> set (map skel (users w))"
    and 2: "(j, c', rb') \<in> set (map skel (users w))"
    by blast
  from 1 obtain u where u: "u \<in> set (users w)" "skel u = (i, c, Some c')" by auto
  from 2 obtain v where v: "v \<in> set (users w)" "skel v = (j, c', rb')" by auto
  from u(2) v(2) have "uid u = i" "uid v = j" "referredBy u = Some (referralCode v)"
    by (simp_all add: skel_def)
  with u(1) v(1) p show "p \<in> referrerGraph w"
    unfolding referrerGraph_def by blast
qed

lemma referrerGraph_sameSkeleton: "sameSkeleton w w' \<Longrightarrow> referrerGraph w' = referrerGraph w"
  by (simp add: referrerGraph_skel sameSkeleton_def)

lemma finite_referrerGraph: "finite (referrerGraph w)"
proof (rule finite_subset)
  show "referrerGraph w \<subseteq> (uid ` set (users w)) \<times> (uid ` set (users w))"
    by (auto simp: referrerGraph_def)
qed simp

lemma wf_referrerGraph: "acyclicReferrers w \<Longrightarrow> wf (referrerGraph w)"
  unfolding acyclicReferrers_def by (rule finite_acyclic_wf [OF finite_referrerGraph])

lemma wf_referrerGraph_converse: "acyclicReferrers w \<Longrightarrow> wf ((referrerGraph w)\<inverse>)"
  unfolding acyclicReferrers_def by (rule finite_acyclic_wf_converse [OF finite_referrerGraph])

lemma stable_sameSkeleton: "stable sameSkeleton"
  by (simp add: stable_def sameSkeleton_def)

lemma skel_credit [simp]: "skel (credit lvl amount r) = skel r"
  by (simp add: skel_def credit_def Let_def)

lemma map_skel_put:
  "find (\<lambda>u. uid u = uid r') xs = Some r \<Longrightarrow> skel r' = skel r
     \<Longrightarrow> map skel (put r' xs) = map skel xs"
  by (induction xs) (auto split: if_splits)

lemma awardClosed_sameSkeleton: "awardClosed (\<lambda>_. True) sameSkeleton"
proof -
  have "map skel (put (credit lvl amount r) (users w)) = map skel (users w)"
    if "userById w i = Some r" for w i r lvl amount
  proof (rule map_skel_put)
    from that have "uid r = i" by (rule userById_uid)
    with that show "find (\<lambda>u. uid u = uid (credit lvl amount r)) (users w) = Some r"
      by (simp add: userById_def)
  qed simp
  then show ?thesis
    by (simp add: awardClosed_def sameSkeleton_def)
qed

lemma find_code_skel:
  "map_option skel (find (\<lambda>u. referralCode u = c) xs) = find (\<lambda>s. fst (snd s) = c) (map skel xs)"
  by (induction xs) (simp_all add: skel_def)

lemma codeIndex_skel:
  "map_option skel (userByReferralCode w c) = find (\<lambda>s. fst (snd s) = c) (map skel (users w))"
  by (simp add: userByReferralCode_def find_code_skel)

lemma userByReferralCode_sameSkeleton:
  assumes "sameSkeleton w0 w" and "userByReferralCode w c = Some l"
  shows "\<exists>v. userByReferralCode w0 c = Some v \<and> skel v = skel l"
proof -
  have "map_option skel (userByReferralCode w0 c) = map_option skel (userByReferralCode w c)"
    using assms(1) by (simp add: codeIndex_skel sameSkeleton_def)
  with assms(2) show ?thesis by (cases "userByReferralCode w0 c") auto
qed

lemma userByReferralCode_mem:
  "userByReferralCode w c = Some v \<Longrightarrow> v \<in> set (users w) \<and> referralCode v = c"
  by (auto simp: userByReferralCode_def find_Some_iff)

section \<open>Computations that settle\<close>

lemma await_settles:
  assumes "preserves R m" and "m w \<noteq> None"
    and "\<And>a w1. R w w1 \<Longrightarrow> m w = Some (Inr a, w1) \<Longrightarrow> f a w1 \<noteq> None"
  shows "await m f w \<noteq> None"
proof -
  from assms(2) obtain x w1 where m: "m w = Some (x, w1)" by (cases "m w") auto
  with assms(1) have "R w w1" by (rule preservesD)
  with assms(3) m show ?thesis by (cases x) (auto simp: await_def)
qed

lemma request_settles: "request env op w \<noteq> None"
  by (simp add: request_def Let_def split: option.splits sum.splits)

lemma reads_settle:
  "getUserById env i w \<noteq> None" "getUserByReferralCode env c w \<noteq> None"
  "getAllUsers env w \<noteq> None" "updateUser env u w \<noteq> None" "addReferral env r w \<noteq> None"
  "dateNow env w \<noteq> None" "mathRandom36 env w \<noteq> None"
  by (simp_all add: getUserById_def getUserByReferralCode_def getAllUsers_def updateUser_def
      addReferral_def request_settles dateNow_def mathRandom36_def)

lemma stable_top: "stable (\<lambda>_ _. True)"
  by (simp add: stable_def)

lemma preserves_top: "preserves (\<lambda>_ _. True) m"
  by (simp add: preserves_def)

lemma generateReferralId_settles: "generateReferralId env w \<noteq> None"
  by (simp add: generateReferralId_ok)

lemma awardEarnings_settles: "awardEarnings env i nu lvl amount w \<noteq> None"
  unfolding awardEarnings_unfold
proof (rule await_settles [OF preserves_top reads_settle(1)])
  fix a w1
  show "(case a of None \<Rightarrow> resolve ()
         | Some r \<Rightarrow>
           await (updateUser env (credit lvl amount r)) (\<lambda>_.
           await (generateReferralId env) (\<lambda>newId.
           await (dateNow env) (\<lambda>now.
           await (addReferral env
                    \<lparr>rid = newId, referrerId = i, referredId = nu,
                     level = lvl, earnings = amount, r_createdAt = now\<rparr>) (\<lambda>_.
           resolve ()))))) w1 \<noteq> None"
  proof (cases a)
    case None
    then show ?thesis by (simp add: resolve_def)
  next
    case (Some r)
    have "await (updateUser env (credit lvl amount r)) (\<lambda>_.
           await (generateReferralId env) (\<lambda>newId.
           await (dateNow env) (\<lambda>now.
           await (addReferral env
                    \<lparr>rid = newId, referrerId = i, referredId = nu,
                     level = lvl, earnings = amount, r_createdAt = now\<rparr>) (\<lambda>_.
           resolve ())))) w1 \<noteq> None"
      apply (rule await_settles [OF preserves_top reads_settle(4)])
      apply (rule await_settles [OF preserves_top generateReferralId_settles])
      apply (rule await_settles [OF preserves_top reads_settle(6)])
      apply (rule await_settles [OF preserves_top reads_settle(5)])
      apply (simp add: resolve_def)
      done
    with Some show ?thesis by simp
  qed
qed

lemma getDirectReferrals_settles: "getDirectReferrals env i w \<noteq> None"
  unfolding getDirectReferrals_def
proof (rule await_settles [OF preserves_top reads_settle(1)])
  fix a w1
  show "(case a of None \<Rightarrow> resolve []
         | Some u \<Rightarrow> await (getAllUsers env) (\<lambda>allUsers.
             resolve (filter (\<lambda>v. referredBy v = Some (referralCode u)) allUsers))) w1 \<noteq> None"
  proof (cases a)
    case None
    then show ?thesis by (simp add: resolve_def)
  next
    case (Some u)
    have "await (getAllUsers env) (\<lambda>allUsers.
             resolve (filter (\<lambda>v. referredBy v = Some (referralCode u)) allUsers)) w1 \<noteq> None"
      by (rule await_settles [OF preserves_top reads_settle(3)]) (simp add: resolve_def)
    with Some show ?thesis by simp
  qed
qed

lemma ifTruthy_settles: "(\<And>c. c \<noteq> [] \<Longrightarrow> rb = Some c \<Longrightarrow> body c w \<noteq> None) \<Longrightarrow> ifTruthy rb body w \<noteq> None"
  by (auto simp: ifTruthy_def resolve_def split: option.splits)

lemma link_settles:
  assumes "sameSkeleton w0 w" and "\<And>w'. E w' \<noteq> None"
    and "\<And>l w'. sameSkeleton w0 w' \<Longrightarrow>
           \<exists>v. userByReferralCode w0 code = Some v \<and> skel v = skel l \<Longrightarrow> K l w' \<noteq> None"
  shows "await (getUserByReferralCode env code) (\<lambda>x.
           case x of
             None \<Rightarrow> E
           | Some l \<Rightarrow> await (awardEarnings env (uid l) nu lvl amount) (\<lambda>_. K l)) w \<noteq> None"
proof (rule await_settles [OF preserves_reads(2) [OF stable_sameSkeleton] reads_settle(2)])
  fix a w1
  assume s1: "sameSkeleton w w1" and g: "getUserByReferralCode env code w = Some (Inr a, w1)"
  from getUserByReferralCode_InrD [OF g] have a: "a = userByReferralCode w code" by simp
  have s01: "sameSkeleton w0 w1"
    using assms(1) s1 by (simp add: sameSkeleton_def)
  show "(case a of None \<Rightarrow> E
         | Some l \<Rightarrow> await (awardEarnings env (uid l) nu lvl amount) (\<lambda>_. K l)) w1 \<noteq> None"
  proof (cases a)
    case None
    then show ?thesis by (simp add: assms(2))
  next
    case (Some l)
    from userByReferralCode_sameSkeleton [OF assms(1)] a Some
    have v: "\<exists>v. userByReferralCode w0 code = Some v \<and> skel v = skel l" by simp
    have "await (awardEarnings env (uid l) nu lvl amount) (\<lambda>_. K l) w1 \<noteq> None"
    proof (rule await_settles [OF preserves_awardEarnings
          [OF stable_sameSkeleton awardClosed_sameSkeleton] awardEarnings_settles])
      fix b w2
      assume "sameSkeleton w1 w2"
      with s01 have "sameSkeleton w0 w2" by (simp add: sameSkeleton_def)
      then show "K l w2 \<noteq> None" using v by (rule assms(3))
    qed simp
    with Some show ?thesis by simp
  qed
qed

section \<open>Termination on an acyclic referrer graph\<close>

lemma uniform_fuel:
  "(\<And>x. x \<in> set xs \<Longrightarrow> \<exists>n. \<forall>m\<ge>n. Q m x) \<Longrightarrow> \<exists>n::nat. \<forall>m\<ge>n. \<forall>x\<in>set xs. Q m x"
proof (induction xs)
  case Nil
  show ?case by simp
next
  case (Cons x xs)
  then obtain n1 where n1: "\<forall>m\<ge>n1. \<forall>y\<in>set xs. Q m y" by auto
  from Cons.prems [of x] obtain n0 where n0: "\<forall>m\<ge>n0. Q m x" by auto
  have "\<forall>m\<ge>max n0 n1. \<forall>y\<in>set (x # xs). Q m y"
    using n0 n1 by auto
  then show ?case by blast
qed

lemma skel_edge:
  assumes "s \<in> set (map skel (users w0))" and "snd (snd s) = Some code"
    and "userByReferralCode w0 code = Some v"
  shows "(skel v, s) \<in> inv_image ((referrerGraph w0)\<inverse>) fst"
proof -
  from assms(1) obtain u where u: "u \<in> set (users w0)" "skel u = s" by auto
  from userByReferralCode_mem [OF assms(3)]
  have v: "v \<in> set (users w0)" "referralCode v = code" by simp_all
  from u(2) assms(2) have "referredBy u = Some code" by (auto simp: skel_def)
  with u(1) v have "(uid u, uid v) \<in> referrerGraph w0"
    unfolding referrerGraph_def by blast
  moreover have "fst s = uid u" "fst (skel v) = uid v"
    using u(2) by (auto simp: skel_def)
  ultimately show ?thesis by (simp add: inv_image_def)
qed

lemma level4Loop_settles_at:
  assumes ac: "acyclicReferrers w0"
  shows "\<exists>n. \<forall>m\<ge>n. \<forall>w cur lvl. sameSkeleton w0 w \<longrightarrow> skel cur = s
            \<longrightarrow> s \<in> set (map skel (users w0)) \<longrightarrow> level4Loop m env nu cur lvl w \<noteq> None"
proof -
  have "wf (inv_image ((referrerGraph w0)\<inverse>) fst)"
    using wf_referrerGraph_converse [OF ac] by (rule wf_inv_image)
  then show ?thesis
  proof (induction s rule: wf_induct_rule)
    case (less s)
    let ?goal = "\<lambda>n s. \<forall>m\<ge>n. \<forall>w cur lvl. sameSkeleton w0 w \<longrightarrow> skel cur = s
            \<longrightarrow> s \<in> set (map skel (users w0)) \<longrightarrow> level4Loop m env nu cur lvl w \<noteq> None"
    have "\<exists>n'. \<forall>code v. s \<in> set (map skel (users w0)) \<longrightarrow> snd (snd s) = Some code
             \<longrightarrow> userByReferralCode w0 code = Some v \<longrightarrow> ?goal n' (skel v)"
    proof (cases "\<exists>code v. s \<in> set (map skel (users w0)) \<and> snd (snd s) = Some code
                    \<and> userByReferralCode w0 code = Some v")
      case True
      then obtain code v where h: "s \<in> set (map skel (users w0))" "snd (snd s) = Some code"
        "userByReferralCode w0 code = Some v" by blast
      from less [OF skel_edge [OF h]] obtain n' where "?goal n' (skel v)" by blast
      with h show ?thesis by (intro exI [of _ n']) auto
    next
      case False
      then show ?thesis by blast
    qed
    then obtain n' where n': "\<And>code v. s \<in> set (map skel (users w0)) \<Longrightarrow> snd (snd s) = Some code
             \<Longrightarrow> userByReferralCode w0 code = Some v \<Longrightarrow> ?goal n' (skel v)"
      by blast
    have "?goal (Suc n') s"
    proof (intro allI impI)
      fix m w cur lvl
      assume m: "Suc n' \<le> m" and sk: "sameSkeleton w0 w" and cur: "skel cur = s"
        and mem: "s \<in> set (map skel (users w0))"
      from m obtain k where k: "m = Suc k" "n' \<le> k" by (cases m) auto
      have "ifTruthy (referredBy cur) (\<lambda>code.
              await (getUserByReferralCode env code) (\<lambda>nextReferrer.
                case nextReferrer of
                  None \<Rightarrow> resolve ()
                | Some nxt \<Rightarrow>
                    await (awardEarnings env (uid nxt) nu lvl (rs_level4Plus rewardStructure)) (\<lambda>_.
                    level4Loop k env nu nxt (lvl + 1)))) w \<noteq> None"
      proof (rule ifTruthy_settles)
        fix code
        assume rb: "referredBy cur = Some code"
        then have snd: "snd (snd s) = Some code" using cur by (auto simp: skel_def)
        show "await (getUserByReferralCode env code) (\<lambda>nextReferrer.
                case nextReferrer of
                  None \<Rightarrow> resolve ()
                | Some nxt \<Rightarrow>
                    await (awardEarnings env (uid nxt) nu lvl (rs_level4Plus rewardStructure)) (\<lambda>_.
                    level4Loop k env nu nxt (lvl + 1))) w \<noteq> None"
        proof (rule link_settles [OF sk])
          fix l w'
          assume sk': "sameSkeleton w0 w'"
            and "\<exists>v. userByReferralCode w0 code = Some v \<and> skel v = skel l"
          then obtain v where v: "userByReferralCode w0 code = Some v" "skel v = skel l" by blast
          from userByReferralCode_mem [OF v(1)] have "skel v \<in> set (map skel (users w0))" by simp
          with n' [OF mem snd v(1)] k(2) sk' v(2)
          show "level4Loop k env nu l (lvl + 1) w' \<noteq> None" by auto
        qed (simp add: resolve_def)
      qed
      then show "level4Loop m env nu cur lvl w \<noteq> None" by (simp add: k(1))
    qed
    then show ?case by blast
  qed
qed

lemma level4Loop_settles:
  assumes "acyclicReferrers w0"
  shows "\<exists>n. \<forall>m\<ge>n. \<forall>w cur lvl. sameSkeleton w0 w \<longrightarrow> skel cur \<in> set (map skel (users w0))
            \<longrightarrow> level4Loop m env nu cur lvl w \<noteq> None"
proof -
  have "\<exists>n. \<forall>m\<ge>n. \<forall>s\<in>set (map skel (users w0)). \<forall>w cur lvl. sameSkeleton w0 w \<longrightarrow> skel cur = s
            \<longrightarrow> level4Loop m env nu cur lvl w \<noteq> None"
  proof (rule uniform_fuel)
    fix s
    assume "s \<in> set (map skel (users w0))"
    with level4Loop_settles_at [OF assms, of s env nu]
    show "\<exists>n. \<forall>m\<ge>n. \<forall>w cur lvl. sameSkeleton w0 w \<longrightarrow> skel cur = s
            \<longrightarrow> level4Loop m env nu cur lvl w \<noteq> None"
      by blast
  qed
  then show ?thesis by blast
qed

lemma case_option_settles:
  "(a = None \<Longrightarrow> E w \<noteq> None) \<Longrightarrow> (\<And>x. a = Some x \<Longrightarrow> F x w \<noteq> None)
     \<Longrightarrow> (case a of None \<Rightarrow> E | Some x \<Rightarrow> F x) w \<noteq> None"
  by (cases a) simp_all

lemma skel_mem_of_lookup:
  "\<exists>v. userByReferralCode w0 code = Some v \<and> skel v = skel l \<Longrightarrow> skel l \<in> set (map skel (users w0))"
proof -
  assume "\<exists>v. userByReferralCode w0 code = Some v \<and> skel v = skel l"
  then obtain v where v: "userByReferralCode w0 code = Some v" "skel v = skel l" by blast
  from userByReferralCode_mem [OF v(1)] have "skel v \<in> set (map skel (users w0))" by simp
  with v(2) show ?thesis by simp
qed

lemma processBody_settles:
  assumes L: "\<And>w cur lvl. sameSkeleton w0 w \<Longrightarrow> skel cur \<in> set (map skel (users w0))
                \<Longrightarrow> level4Loop m env nu cur lvl w \<noteq> None"
  shows "processBody m env nu code w0 \<noteq> None"
  unfolding processBody_def
  apply (rule await_settles [OF preserves_reads(1) [OF stable_sameSkeleton] reads_settle(1)])
  apply (rule case_option_settles)
   apply (simp only: reject_def, simp)
  apply (rule link_settles, assumption)
   apply (simp only: reject_def, simp)
  apply (rule ifTruthy_settles)
  apply (rule link_settles, assumption)
   apply (simp only: resolve_def, simp)
  apply (rule ifTruthy_settles)
  apply (rule link_settles, assumption)
   apply (simp only: resolve_def, simp)
  apply (rule L, assumption)
  apply (erule skel_mem_of_lookup)
  done

lemma processNewReferral_settles:
  assumes "acyclicReferrers w"
  shows "\<exists>n. \<forall>m\<ge>n. processNewReferral m env nu code w \<noteq> None"
proof -
  from level4Loop_settles [OF assms, of env nu] obtain n where
    "\<forall>m\<ge>n. \<forall>w' cur lvl. sameSkeleton w w' \<longrightarrow> skel cur \<in> set (map skel (users w))
            \<longrightarrow> level4Loop m env nu cur lvl w' \<noteq> None" by blast
  then have "\<forall>m\<ge>n. processBody m env nu code w \<noteq> None"
    by (intro allI impI processBody_settles) blast
  then have "\<forall>m\<ge>n. processNewReferral m env nu code w \<noteq> None"
    by (auto simp: processNewReferral_def split: option.splits sum.splits)
  then show ?thesis by blast
qed

lemma uplineLoop_None_settles: "uplineLoop (Suc k) env None acc w \<noteq> None"
  by (simp add: resolve_def)

lemma uplineLoop_settles_at:
  assumes ac: "acyclicReferrers w0"
  shows "\<exists>n. \<forall>m\<ge>n. \<forall>w cur acc. sameSkeleton w0 w \<longrightarrow> skel cur = s
            \<longrightarrow> s \<in> set (map skel (users w0)) \<longrightarrow> uplineLoop m env (Some cur) acc w \<noteq> None"
proof -
  have "wf (inv_image ((referrerGraph w0)\<inverse>) fst)"
    using wf_referrerGraph_converse [OF ac] by (rule wf_inv_image)
  then show ?thesis
  proof (induction s rule: wf_induct_rule)
    case (less s)
    let ?goal = "\<lambda>n s. \<forall>m\<ge>n. \<forall>w cur acc. sameSkeleton w0 w \<longrightarrow> skel cur = s
            \<longrightarrow> s \<in> set (map skel (users w0)) \<longrightarrow> uplineLoop m env (Some cur) acc w \<noteq> None"
    have "\<exists>n'. \<forall>code v. s \<in> set (map skel (users w0)) \<longrightarrow> snd (snd s) = Some code
             \<longrightarrow> userByReferralCode w0 code = Some v \<longrightarrow> ?goal n' (skel v)"
    proof (cases "\<exists>code v. s \<in> set (map skel (users w0)) \<and> snd (snd s) = Some code
                    \<and> userByReferralCode w0 code = Some v")
      case True
      then obtain code v where h: "s \<in> set (map skel (users w0))" "snd (snd s) = Some code"
        "userByReferralCode w0 code = Some v" by blast
      from less [OF skel_edge [OF h]] obtain n' where "?goal n' (skel v)" by blast
      with h show ?thesis by (intro exI [of _ n']) auto
    next
      case False
      then show ?thesis by blast
    qed
    then obtain n' where n': "\<And>code v. s \<in> set (map skel (users w0)) \<Longrightarrow> snd (snd s) = Some code
             \<Longrightarrow> userByReferralCode w0 code = Some v \<Longrightarrow> ?goal n' (skel v)"
      by blast
    have "?goal (Suc (Suc n')) s"
    proof (intro allI impI)
      fix m w cur acc
      assume m: "Suc (Suc n') \<le> m" and sk: "sameSkeleton w0 w" and cur: "skel cur = s"
        and mem: "s \<in> set (map skel (users w0))"
      from m obtain k where k: "m = Suc (Suc k)" "n' \<le> Suc k"
        by (cases m; cases "m - 1") auto
      show "uplineLoop m env (Some cur) acc w \<noteq> None"
      proof (cases "referredBy cur")
        case None
        then show ?thesis by (simp add: k(1) resolve_def)
      next
        case (Some code)
        then have snd: "snd (snd s) = Some code" using cur by (auto simp: skel_def)
        show ?thesis
        proof (cases "code = []")
          case True
          with Some show ?thesis by (simp add: k(1) resolve_def)
        next
          case False
          have "await (getUserByReferralCode env code) (\<lambda>nxt.
                  uplineLoop (Suc k) env nxt (acc @ [cur])) w \<noteq> None"
          proof (rule await_settles [OF preserves_reads(2) [OF stable_sameSkeleton] reads_settle(2)])
            fix a w1
            assume s1: "sameSkeleton w w1"
              and g: "getUserByReferralCode env code w = Some (Inr a, w1)"
            from getUserByReferralCode_InrD [OF g] have a: "a = userByReferralCode w code" by simp
            have s01: "sameSkeleton w0 w1" using sk s1 by (simp add: sameSkeleton_def)
            show "uplineLoop (Suc k) env a (acc @ [cur]) w1 \<noteq> None"
            proof (cases a)
              case None
              then show ?thesis by (simp only: uplineLoop_None_settles) simp
            next
              case (Some l)
              from a Some have "userByReferralCode w code = Some l" by simp
              from userByReferralCode_sameSkeleton [OF sk this]
              obtain v where v: "userByReferralCode w0 code = Some v" "skel v = skel l" by blast
              from userByReferralCode_mem [OF v(1)]
              have "skel v \<in> set (map skel (users w0))" by simp
              with n' [OF mem snd v(1)] k(2) s01 v(2) Some show ?thesis by auto
            qed
          qed
          with Some False show ?thesis by (simp add: k(1))
        qed
      qed
    qed
    then show ?case by blast
  qed
qed

lemma getUpline_settles:
  assumes "acyclicReferrers w"
  shows "\<exists>n. \<forall>m\<ge>n. getUpline m env i w \<noteq> None"
proof -
  have "\<exists>n. \<forall>m\<ge>n. \<forall>s\<in>set (map skel (users w)). \<forall>w' cur acc. sameSkeleton w w' \<longrightarrow> skel cur = s
            \<longrightarrow> uplineLoop m env (Some cur) acc w' \<noteq> None"
  proof (rule uniform_fuel)
    fix s
    assume "s \<in> set (map skel (users w))"
    with uplineLoop_settles_at [OF assms, of s env]
    show "\<exists>n. \<forall>m\<ge>n. \<forall>w' cur acc. sameSkeleton w w' \<longrightarrow> skel cur = s
            \<longrightarrow> uplineLoop m env (Some cur) acc w' \<noteq> None"
      by blast
  qed
  then obtain n where n: "\<And>m w' cur acc. n \<le> m \<Longrightarrow> sameSkeleton w w' \<Longrightarrow>
      skel cur \<in> set (map skel (users w)) \<Longrightarrow> uplineLoop m env (Some cur) acc w' \<noteq> None"
    by blast
  have "getUpline m env i w \<noteq> None" if m: "Suc n \<le> m" for m
    unfolding getUpline_def
  proof (rule await_settles [OF preserves_reads(1) [OF stable_sameSkeleton] reads_settle(1)])
    fix a w1
    assume s1: "sameSkeleton w w1"
    from m obtain k where k: "m = Suc k" by (cases m) auto
    show "(case a of None \<Rightarrow> resolve []
           | Some u \<Rightarrow>
               (case referredBy u of
                  None \<Rightarrow> resolve []
                | Some code \<Rightarrow>
                    if code = [] then resolve []
                    else await (getUserByReferralCode env code) (\<lambda>currentReferrer.
                           uplineLoop m env currentReferrer []))) w1 \<noteq> None"
    proof (cases a)
      case None
      then show ?thesis by (simp add: resolve_def)
    next
      case (Some u)
      show ?thesis
      proof (cases "referredBy u")
        case None
        with Some show ?thesis by (simp add: resolve_def)
      next
        case rb: (Some code)
        show ?thesis
        proof (cases "code = []")
          case True
          with Some rb show ?thesis by (simp add: resolve_def)
        next
          case False
          have "await (getUserByReferralCode env code) (\<lambda>currentReferrer.
                  uplineLoop m env currentReferrer []) w1 \<noteq> None"
          proof (rule await_settles [OF preserves_reads(2) [OF stable_sameSkeleton] reads_settle(2)])
            fix b w2
            assume s2: "sameSkeleton w1 w2"
              and g: "getUserByReferralCode env code w1 = Some (Inr b, w2)"
            from getUserByReferralCode_InrD [OF g] have b: "b = userByReferralCode w1 code" by simp
            have s02: "sameSkeleton w w2" using s1 s2 by (simp add: sameSkeleton_def)
            show "uplineLoop m env b [] w2 \<noteq> None"
            proof (cases b)
              case None
              then show ?thesis unfolding k by (simp only: uplineLoop_None_settles) simp
            next
              case (Some l)
              from b Some have "userByReferralCode w1 code = Some l" by simp
              from userByReferralCode_sameSkeleton [OF s1 this]
              have "\<exists>v. userByReferralCode w code = Some v \<and> skel v = skel l" .
              then have "skel l \<in> set (map skel (users w))" by (rule skel_mem_of_lookup)
              with n [of m w2 l "[]"] m s02 Some show ?thesis by simp
            qed
          qed
          with Some rb False show ?thesis by simp
        qed
      qed
    qed
  qed
  then show ?thesis by blast
qed

lemma forOf_settles:
  assumes "\<And>x acc w. x \<in> set xs \<Longrightarrow> users w = U \<Longrightarrow> body x acc w \<noteq> None"
    and "\<And>x acc. preserves sameStores (body x acc)"
  shows "users w = U \<Longrightarrow> forOf xs body acc w \<noteq> None"
  using assms(1)
proof (induction xs arbitrary: acc w)
  case Nil
  show ?case by (simp add: resolve_def)
next
  case (Cons x xs)
  have "await (body x acc) (\<lambda>acc'. forOf xs body acc') w \<noteq> None"
  proof (rule await_settles [OF assms(2)])
    show "body x acc w \<noteq> None" using Cons.prems by simp
  next
    fix a w1
    assume "sameStores w w1"
    then have "users w1 = U" using Cons.prems(1) by (simp add: sameStores_def)
    then show "forOf xs body a w1 \<noteq> None"
      using Cons.prems(2) by (intro Cons.IH) simp_all
  qed
  then show ?case by simp
qed

lemma getDirectReferrals_InrD:
  assumes "getDirectReferrals env i w = Some (Inr dr, w')"
  shows "users w' = users w
       \<and> (case userById w i of
            None \<Rightarrow> dr = []
          | Some u \<Rightarrow> dr = filter (\<lambda>v. referredBy v = Some (referralCode u)) (users w))"
proof -
  have same: "users w' = users w"
    using preservesD [OF preserves_getDirectReferrals [OF stable_sameStores] assms]
    by (simp add: sameStores_def)
  from assms have "await (getUserById env i) (\<lambda>user.
       case user of
         None \<Rightarrow> resolve []
       | Some u \<Rightarrow>
           await (getAllUsers env) (\<lambda>allUsers.
           resolve (filter (\<lambda>v. referredBy v = Some (referralCode u)) allUsers))) w
       = Some (Inr dr, w')"
    by (simp only: getDirectReferrals_def)
  then show ?thesis
  proof (cases rule: await_SomeE)
    case (rejected e)
    then show ?thesis by simp
  next
    case (continued x w1)
    from getUserById_InrD [OF continued(1)]
    have x: "x = userById w i" and w1: "w1 = w\<lparr>tick := Suc (tick w)\<rparr>" by simp_all
    show ?thesis
    proof (cases x)
      case None
      with continued(2) x same show ?thesis by (simp add: resolve_def)
    next
      case (Some u)
      with continued(2) have "await (getAllUsers env) (\<lambda>allUsers.
           resolve (filter (\<lambda>v. referredBy v = Some (referralCode u)) allUsers)) w1
           = Some (Inr dr, w')" by simp
      then have "dr = filter (\<lambda>v. referredBy v = Some (referralCode u)) (users w)"
      proof (cases rule: await_SomeE)
        case (rejected e)
        then show ?thesis by simp
      next
        case (continued y w2)
        from continued(1) have "y = users w1"
          unfolding getAllUsers_def by (auto dest: request_InrD)
        with continued(2) w1 show ?thesis by (simp add: resolve_def)
      qed
      with Some x same show ?thesis by simp
    qed
  qed
qed

lemma buildReferralTree_settles:
  assumes ac: "acyclicReferrers w0"
  shows "\<exists>n. \<forall>m\<ge>n. \<forall>w. users w = users w0 \<longrightarrow> buildReferralTree m env i w \<noteq> None"
  using wf_referrerGraph [OF ac]
proof (induction i rule: wf_induct_rule)
  case (less i)
  let ?goal = "\<lambda>m j. \<forall>w::world. users w = users w0 \<longrightarrow> buildReferralTree m env j w \<noteq> None"
  let ?kids = "case userById w0 i of None \<Rightarrow> []
               | Some u \<Rightarrow> filter (\<lambda>v. referredBy v = Some (referralCode u)) (users w0)"
  have "\<exists>n. \<forall>m\<ge>n. \<forall>j\<in>set (map uid ?kids). ?goal m j"
  proof (rule uniform_fuel)
    fix j
    assume "j \<in> set (map uid ?kids)"
    then obtain u v where u: "userById w0 i = Some u" and v: "v \<in> set (users w0)"
      "referredBy v = Some (referralCode u)" "uid v = j"
      by (cases "userById w0 i") auto
    from userById_mem [OF u] userById_uid [OF u] v
    have "(j, i) \<in> referrerGraph w0" unfolding referrerGraph_def by blast
    then show "\<exists>n. \<forall>m\<ge>n. ?goal m j" by (rule less)
  qed
  then obtain n where n: "\<And>m j (w::world). n \<le> m \<Longrightarrow> j \<in> set (map uid ?kids) \<Longrightarrow> users w = users w0
      \<Longrightarrow> buildReferralTree m env j w \<noteq> None" by blast
  have "?goal m i" if m: "Suc n \<le> m" for m
  proof (intro allI impI)
    fix w :: world
    assume w: "users w = users w0"
    from m obtain k where k: "m = Suc k" "n \<le> k" by (cases m) auto
    have "await (getUserById env i) (\<lambda>user.
       case user of
         None \<Rightarrow> resolve None
       | Some u \<Rightarrow>
           await (getDirectReferrals env i) (\<lambda>directReferrals.
           await (forOf directReferrals (\<lambda>referral' cs.
                    await (buildReferralTree k env (uid referral')) (\<lambda>childTree.
                      case childTree of
                        Some t \<Rightarrow> resolve (cs @ [t])
                      | None \<Rightarrow> resolve cs)) []) (\<lambda>cs.
           resolve (Some (Node u cs))))) w \<noteq> None"
    proof (rule await_settles [OF preserves_reads(1) [OF stable_sameStores] reads_settle(1)])
      fix a w1
      assume s1: "sameStores w w1"
      then have w1: "users w1 = users w0" using w by (simp add: sameStores_def)
      show "(case a of None \<Rightarrow> resolve None
             | Some u \<Rightarrow>
           await (getDirectReferrals env i) (\<lambda>directReferrals.
           await (forOf directReferrals (\<lambda>referral' cs.
                    await (buildReferralTree k env (uid referral')) (\<lambda>childTree.
                      case childTree of
                        Some t \<Rightarrow> resolve (cs @ [t])
                      | None \<Rightarrow> resolve cs)) []) (\<lambda>cs.
           resolve (Some (Node u cs))))) w1 \<noteq> None"
      proof (rule case_option_settles)
        show "resolve None w1 \<noteq> None" by (simp add: resolve_def)
      next
        fix u
        show "await (getDirectReferrals env i) (\<lambda>directReferrals.
           await (forOf directReferrals (\<lambda>referral' cs.
                    await (buildReferralTree k env (uid referral')) (\<lambda>childTree.
                      case childTree of
                        Some t \<Rightarrow> resolve (cs @ [t])
                      | None \<Rightarrow> resolve cs)) []) (\<lambda>cs.
           resolve (Some (Node u cs)))) w1 \<noteq> None"
        proof (rule await_settles [OF preserves_top getDirectReferrals_settles])
          fix dr w2
          assume g: "getDirectReferrals env i w1 = Some (Inr dr, w2)"
          from getDirectReferrals_InrD [OF g] w1
          have w2: "users w2 = users w0" and dr: "set dr \<subseteq> set ?kids"
            by (auto simp: userById_def split: option.splits)
          show "await (forOf dr (\<lambda>referral' cs.
                    await (buildReferralTree k env (uid referral')) (\<lambda>childTree.
                      case childTree of
                        Some t \<Rightarrow> resolve (cs @ [t])
                      | None \<Rightarrow> resolve cs)) []) (\<lambda>cs.
                  resolve (Some (Node u cs))) w2 \<noteq> None"
          proof (rule await_settles [OF preserves_top])
            show "forOf dr (\<lambda>referral' cs.
                    await (buildReferralTree k env (uid referral')) (\<lambda>childTree.
                      case childTree of
                        Some t \<Rightarrow> resolve (cs @ [t])
                      | None \<Rightarrow> resolve cs)) [] w2 \<noteq> None"
            proof (rule forOf_settles [OF _ _ w2])
              fix x :: user and acc :: "tree list" and w' :: world
              assume x: "x \<in> set dr" and w': "users w' = users w0"
              from x dr have "uid x \<in> set (map uid ?kids)" by auto
              from n [OF k(2) this w']
              have b: "buildReferralTree k env (uid x) w' \<noteq> None" .
              show "await (buildReferralTree k env (uid x)) (\<lambda>childTree.
                      case childTree of
                        Some t \<Rightarrow> resolve (acc @ [t])
                      | None \<Rightarrow> resolve acc) w' \<noteq> None"
                by (rule await_settles [OF preserves_top], rule b)
                   (simp add: resolve_def split: option.splits)
            next
              fix x acc
              show "preserves sameStores (await (buildReferralTree k env (uid x)) (\<lambda>childTree.
                      case childTree of
                        Some t \<Rightarrow> resolve (acc @ [t])
                      | None \<Rightarrow> resolve acc))"
                by (intro preserves_await preserves_buildReferralTree stable_sameStores)
                   (simp add: preserves_resolve [OF stable_sameStores] split: option.splits)
            qed
          qed (simp add: resolve_def)
        qed
      qed
    qed
    then show "buildReferralTree m env i w \<noteq> None" by (simp add: k(1))
  qed
  then show ?case by blast
qed

section \<open>Fresh identifiers\<close>

lemma freshIds_tick: "freshIds env w \<Longrightarrow> tick w \<le> t \<Longrightarrow> freshIds env (w\<lparr>tick := t\<rparr>)"
  by (auto simp: freshIds_def)

lemma freshIds_awarded:
  assumes "freshIds env w"
  shows "freshIds env (awarded env i nu lvl amount r w)"
  unfolding freshIds_def
proof (intro conjI allI impI)
  fix t
  assume t: "tick (awarded env i nu lvl amount r w) \<le> t"
  then have t6: "tick w + 6 \<le> t" by (simp add: awarded_def)
  then have "referralIdAt env t \<notin> rid ` set (referrals w)"
    using assms by (simp add: freshIds_def)
  moreover have "referralIdAt env (tick w + 2) \<noteq> referralIdAt env t"
    using assms t6 by (simp add: freshIds_def)
  ultimately show "referralIdAt env t \<notin> rid ` set (referrals (awarded env i nu lvl amount r w))"
    by (auto simp: awarded_def awardRecord_def)
next
  fix t t'
  assume "tick (awarded env i nu lvl amount r w) \<le> t" and "t < t'"
  then show "referralIdAt env t \<noteq> referralIdAt env t'"
    using assms by (simp add: freshIds_def awarded_def)
qed

lemma freshIds_next: "freshIds env w \<Longrightarrow> referralIdAt env (tick w + k) \<notin> rid ` set (referrals w)"
  by (simp add: freshIds_def)

lemma userById_of_member:
  "l \<in> set (users w) \<Longrightarrow> \<exists>r. userById w (uid l) = Some r"
  unfolding userById_def by (cases "find (\<lambda>u. uid u = uid l) (users w)") (auto simp: find_None_iff)

lemma link_ok:
  assumes nf: "noFaults env" and fr: "freshIds env w"
    and l: "userByReferralCode w code = Some l" and r: "userById w (uid l) = Some r"
  shows "await (getUserByReferralCode env code) (\<lambda>x.
           case x of
             None \<Rightarrow> E
           | Some l \<Rightarrow> await (awardEarnings env (uid l) nu lvl amount) (\<lambda>_. K l)) w
         = K l (awarded env (uid l) nu lvl amount r (w\<lparr>tick := Suc (tick w)\<rparr>))"
proof -
  let ?w1 = "w\<lparr>tick := Suc (tick w)\<rparr>"
  have f: "\<And>t. fault env t = None" using nf by (simp add: noFaults_def)
  have a: "awardEarnings env (uid l) nu lvl amount ?w1
             = Some (Inr (), awarded env (uid l) nu lvl amount r ?w1)"
    using freshIds_next [OF freshIds_tick [OF fr, of "Suc (tick w)"], of 2]
    by (intro awardEarnings_ok) (simp_all add: f r)
  show ?thesis
    by (rule await_step, rule getUserByReferralCode_ok, rule f)
       (simp add: l, rule await_step, rule a, rule refl)
qed

lemma link_unresolved:
  assumes nf: "noFaults env" and l: "userByReferralCode w code = None"
  shows "await (getUserByReferralCode env code) (\<lambda>x. case x of None \<Rightarrow> E | Some l \<Rightarrow> F l) w
         = E (w\<lparr>tick := Suc (tick w)\<rparr>)"
proof -
  have f: "\<And>t. fault env t = None" using nf by (simp add: noFaults_def)
  show ?thesis
    by (rule await_step, rule getUserByReferralCode_ok, rule f) (simp add: l)
qed

section \<open>Identifiers of the example environment\<close>

lemma digit_char_inj:
  assumes "a < 10" and "b < 10" and "(char_of (48 + a) :: char) = char_of (48 + b)"
  shows "a = (b::nat)"
proof -
  from assms(3) have "of_char (char_of (48 + a) :: char) = (of_char (char_of (48 + b) :: char) :: nat)"
    by simp
  then have "(48 + a) mod 256 = (48 + b) mod 256" by (simp only: of_char_of)
  with assms(1,2) show ?thesis by simp
qed

lemma digits_inj: "digits m = digits n \<Longrightarrow> m = n"
proof (induction m arbitrary: n rule: less_induct)
  case (less m)
  show ?case
  proof (cases "m < 10")
    case True
    show ?thesis
    proof (cases "n < 10")
      case n: True
      from less.prems True n have "(char_of (48 + m) :: char) = char_of (48 + n)"
        by (simp add: digits_small)
      with True n show ?thesis by (rule digit_char_inj)
    next
      case False
      with less.prems True have "length (digits (n div 10)) = 0"
        by (simp add: digits_small digits_large)
      then show ?thesis by (simp add: digits_nonempty)
    qed
  next
    case False
    show ?thesis
    proof (cases "n < 10")
      case True
      with less.prems False have "length (digits (m div 10)) = 0"
        by (simp add: digits_small digits_large)
      then show ?thesis by (simp add: digits_nonempty)
    next
      case n: False
      from less.prems False n
      have d: "digits (m div 10) = digits (n div 10)"
        and c: "(char_of (48 + m mod 10) :: char) = char_of (48 + n mod 10)"
        by (simp_all add: digits_large)
      have "m div 10 < m" using False by simp
      from less.IH [OF this d] have 1: "m div 10 = n div 10" .
      have 2: "m mod 10 = n mod 10" by (rule digit_char_inj [OF _ _ c]) simp_all
      from 1 2 show ?thesis by (metis div_mult_mod_eq)
    qed
  qed
qed

lemma referralIdAt_env0_inj: "referralIdAt env0 t = referralIdAt env0 t' \<Longrightarrow> t = t'"
proof -
  assume "referralIdAt env0 t = referralIdAt env0 t'"
  then have "digits (nat (1700000000300 + int t)) = digits (nat (1700000000300 + int t'))"
    by (simp add: referralIdAt_def env0_def numberToString_def)
  then have "nat (1700000000300 + int t) = nat (1700000000300 + int t')" by (rule digits_inj)
  then show ?thesis by simp
qed

lemma freshIds_env0: "referrals w = [] \<Longrightarrow> freshIds env0 w"
  using referralIdAt_env0_inj by (auto simp: freshIds_def)

lemma noFaults_env0: "noFaults env0"
  by (simp add: noFaults_def env0_def)

section \<open>A cyclic referrer graph\<close>

lemma sameSkeleton_awarded:
  "userById w i = Some r \<Longrightarrow> map skel (users (awarded env i nu lvl amount r w)) = map skel (users w)"
proof -
  assume r: "userById w i = Some r"
  then have "uid r = i" by (rule userById_uid)
  with r have "find (\<lambda>u. uid u = uid (credit lvl amount r)) (users w) = Some r"
    by (simp add: userById_def)
  then have "map skel (put (credit lvl amount r) (users w)) = map skel (users w)"
    by (rule map_skel_put) simp
  then show ?thesis by (simp add: awarded_def)
qed

lemma cyclic_lookup:
  assumes "map skel (users w) = [skel userS]"
  shows "\<exists>x. userByReferralCode w ''SSSSSSS7'' = Some x \<and> userById w (uid x) = Some x
            \<and> referredBy x = Some ''SSSSSSS7'' \<and> uid x = ''user_7_s''"
proof -
  from assms obtain x where x: "users w = [x]" "skel x = skel userS" by auto
  from x(2) have "referralCode x = ''SSSSSSS7''" "referredBy x = Some ''SSSSSSS7''"
    "uid x = ''user_7_s''"
    by (simp_all add: skel_def userS_def newUserObject_def)
  with x(1) show ?thesis by (simp add: userByReferralCode_def userById_def)
qed

lemma cyclic_link:
  assumes nf: "noFaults env" and fr: "freshIds env w" and sk: "map skel (users w) = [skel userS]"
    and K: "\<And>l w'. referredBy l = Some ''SSSSSSS7'' \<Longrightarrow> freshIds env w'
               \<Longrightarrow> map skel (users w') = [skel userS] \<Longrightarrow> K l w' = None"
  shows "await (getUserByReferralCode env ''SSSSSSS7'') (\<lambda>x.
           case x of
             None \<Rightarrow> E
           | Some l \<Rightarrow> await (awardEarnings env (uid l) nu lvl amount) (\<lambda>_. K l)) w = None"
proof -
  from cyclic_lookup [OF sk] obtain x where x: "userByReferralCode w ''SSSSSSS7'' = Some x"
    "userById w (uid x) = Some x" "referredBy x = Some ''SSSSSSS7''" by blast
  let ?w1 = "w\<lparr>tick := Suc (tick w)\<rparr>"
  have "freshIds env (awarded env (uid x) nu lvl amount x ?w1)"
    by (intro freshIds_awarded freshIds_tick fr) simp
  moreover have "map skel (users (awarded env (uid x) nu lvl amount x ?w1)) = [skel userS]"
    using sameSkeleton_awarded [of ?w1 "uid x" x] x(2) sk by simp
  ultimately have "K x (awarded env (uid x) nu lvl amount x ?w1) = None"
    using x(3) by (intro K)
  then show ?thesis
    by (simp only: link_ok [OF nf fr x(1) x(2)])
qed

lemma cyclic_ifTruthy_link:
  assumes "rb = Some ''SSSSSSS7''"
    and nf: "noFaults env" and fr: "freshIds env w" and sk: "map skel (users w) = [skel userS]"
    and K: "\<And>l w'. referredBy l = Some ''SSSSSSS7'' \<Longrightarrow> freshIds env w'
               \<Longrightarrow> map skel (users w') = [skel userS] \<Longrightarrow> K l w' = None"
  shows "ifTruthy rb (\<lambda>code. await (getUserByReferralCode env code) (\<lambda>x.
           case x of
             None \<Rightarrow> E
           | Some l \<Rightarrow> await (awardEarnings env (uid l) nu lvl amount) (\<lambda>_. K l))) w = None"
  using cyclic_link [OF nf fr sk K] by (simp add: assms(1) ifTruthy_def)

lemma level4Loop_diverges:
  assumes nf: "noFaults env"
  shows "freshIds env w \<Longrightarrow> map skel (users w) = [skel userS]
           \<Longrightarrow> referredBy cur = Some ''SSSSSSS7'' \<Longrightarrow> level4Loop n env nu cur lvl w = None"
proof (induction n arbitrary: w cur lvl)
  case 0
  show ?case by (simp add: diverge_def)
next
  case (Suc n)
  show ?case
    unfolding level4Loop.simps
    by (rule cyclic_ifTruthy_link [OF Suc.prems(3) nf Suc.prems(1,2)]) (rule Suc.IH)
qed

lemma processBody_diverges:
  assumes nf: "noFaults env" and fr: "freshIds env w" and sk: "map skel (users w) = [skel userS]"
  shows "processBody n env ''user_7_s'' ''SSSSSSS7'' w = None"
proof -
  let ?w1 = "w\<lparr>tick := Suc (tick w)\<rparr>"
  have f: "\<And>t. fault env t = None" using nf by (simp add: noFaults_def)
  from cyclic_lookup [OF sk] obtain x where "userById w (uid x) = Some x"
    "uid x = ''user_7_s''" by blast
  then have u: "userById w ''user_7_s'' = Some x" by simp
  have fr1: "freshIds env ?w1" by (rule freshIds_tick [OF fr]) simp
  have sk1: "map skel (users ?w1) = [skel userS]" using sk by simp
  show ?thesis
    unfolding processBody_def
    apply (rule await_step, rule getUserById_ok, rule f)
    apply (simp only: u option.case)
    apply (rule cyclic_link [OF nf fr1 sk1])
    apply (rule cyclic_ifTruthy_link [OF _ nf], assumption+)
    apply (rule cyclic_ifTruthy_link [OF _ nf], assumption+)
    apply (rule level4Loop_diverges [OF nf], assumption+)
    done
qed

lemma processNewReferral_diverges:
  "processNewReferral n env0 ''user_7_s'' ''SSSSSSS7'' worldCyclic = None"
proof -
  have "processBody n env0 ''user_7_s'' ''SSSSSSS7'' worldCyclic = None"
    by (rule processBody_diverges [OF noFaults_env0 freshIds_env0])
       (simp_all add: worldCyclic_def)
  then show ?thesis by (simp add: processNewReferral_def)
qed

lemma uplineLoop_diverges:
  assumes nf: "noFaults env"
  shows "users w = [userS] \<Longrightarrow> uplineLoop n env (Some userS) acc w = None"
proof (induction n arbitrary: w acc)
  case 0
  show ?case by (simp add: diverge_def)
next
  case (Suc n)
  have f: "\<And>t. fault env t = None" using nf by (simp add: noFaults_def)
  have rb: "referredBy userS = Some ''SSSSSSS7''" by (simp add: userS_def newUserObject_def)
  have l: "userByReferralCode w ''SSSSSSS7'' = Some userS"
    using Suc.prems by (simp add: userByReferralCode_def userS_def newUserObject_def)
  have "await (getUserByReferralCode env ''SSSSSSS7'') (\<lambda>nxt.
          uplineLoop n env nxt (acc @ [userS])) w = None"
    by (rule await_step, rule getUserByReferralCode_ok, rule f)
       (simp add: l Suc.IH Suc.prems)
  then show ?case by (simp add: rb)
qed

lemma getUpline_diverges:
  assumes nf: "noFaults env" and w: "users w = [userS]"
  shows "getUpline n env ''user_7_s'' w = None"
proof -
  have f: "\<And>t. fault env t = None" using nf by (simp add: noFaults_def)
  have u: "userById w ''user_7_s'' = Some userS"
    using w by (simp add: userById_def userS_def newUserObject_def)
  have rb: "referredBy userS = Some ''SSSSSSS7''" by (simp add: userS_def newUserObject_def)
  let ?w1 = "w\<lparr>tick := Suc (tick w)\<rparr>"
  let ?w2 = "?w1\<lparr>tick := Suc (tick ?w1)\<rparr>"
  have l: "userByReferralCode ?w1 ''SSSSSSS7'' = Some userS"
    using w by (simp add: userByReferralCode_def userS_def newUserObject_def)
  have "uplineLoop n env (Some userS) [] ?w2 = None"
    by (rule uplineLoop_diverges [OF nf]) (simp add: w)
  then have "await (getUserByReferralCode env ''SSSSSSS7'') (\<lambda>currentReferrer.
          uplineLoop n env currentReferrer []) ?w1 = None"
    by (intro await_step [where a="Some userS" and w'="?w2"])
       (simp_all only: getUserByReferralCode_ok [OF f] l)
  then show ?thesis
    unfolding getUpline_def
    by (intro await_step [where a="Some userS" and w'="?w1"])
       (simp_all add: getUserById_ok [OF f] u rb)
qed

lemma getDirectReferrals_ok:
  assumes nf: "noFaults env" and u: "userById w i = Some u"
  shows "getDirectReferrals env i w
           = Some (Inr (filter (\<lambda>v. referredBy v = Some (referralCode u)) (users w)),
                   w\<lparr>tick := Suc (Suc (tick w))\<rparr>)"
proof -
  have f: "\<And>t. fault env t = None" using nf by (simp add: noFaults_def)
  show ?thesis
    unfolding getDirectReferrals_def
    apply (rule await_step, rule getUserById_ok, rule f)
    apply (simp only: u option.case)
    apply (rule await_step)
     apply (simp add: getAllUsers_def request_def f)
    apply (simp add: resolve_def)
    done
qed

lemma buildReferralTree_diverges:
  assumes nf: "noFaults env"
  shows "users w = [userS] \<Longrightarrow> buildReferralTree n env ''user_7_s'' w = None"
proof (induction n arbitrary: w)
  case 0
  show ?case by (simp add: diverge_def)
next
  case (Suc n)
  have f: "\<And>t. fault env t = None" using nf by (simp add: noFaults_def)
  let ?w1 = "w\<lparr>tick := Suc (tick w)\<rparr>"
  have u: "userById w ''user_7_s'' = Some userS" "userById ?w1 ''user_7_s'' = Some userS"
    using Suc.prems by (simp_all add: userById_def userS_def newUserObject_def)
  have kids: "filter (\<lambda>v. referredBy v = Some (referralCode userS)) (users ?w1) = [userS]"
    using Suc.prems by (simp add: userS_def newUserObject_def)
  have i: "uid userS = ''user_7_s''" by (simp add: userS_def newUserObject_def)
  show ?case
    unfolding buildReferralTree.simps
    apply (rule await_step, rule getUserById_ok, rule f)
    apply (simp only: u option.case)
    apply (rule await_step, rule getDirectReferrals_ok [OF nf u(2)])
    apply (simp only: kids forOf.simps i)
    apply (rule await_None)
    apply (rule await_None)
    apply (rule await_None)
    apply (rule Suc.IH)
    apply (simp add: Suc.prems)
    done
qed

lemma acyclicReferrers_world0: "acyclicReferrers world0"
  unfolding acyclicReferrers_def
proof (rule acyclicI_order)
  fix a b
  assume "(a, b) \<in> referrerGraph world0"
  then show "(if b = ''user_1_a'' then 0 else if b = ''user_2_b'' then 1 else (2::nat))
           < (if a = ''user_1_a'' then 0 else if a = ''user_2_b'' then 1 else (2::nat))"
    by (auto simp: referrerGraph_def world0_def userA_def userB_def userC_def newUserObject_def)
qed

lemma cyclic_worldCyclic: "\<not> acyclicReferrers worldCyclic"
proof -
  have "(''user_7_s'', ''user_7_s'') \<in> referrerGraph worldCyclic"
    by (simp add: referrerGraph_def worldCyclic_def userS_def newUserObject_def)
  then have "(''user_7_s'', ''user_7_s'') \<in> (referrerGraph worldCyclic)\<^sup>+" by blast
  then show ?thesis by (auto simp: acyclicReferrers_def acyclic_def)
qed

section \<open>Termination of the traversals\<close>

text \<open>
  C8. When the referrer graph induced by \<open>referredBy\<close> is acyclic, the upward walk of
  \<^verbatim>\<open>processNewReferral\<close>, the loop of \<^verbatim>\<open>getUpline\<close> and the recursion of
  \<^verbatim>\<open>buildReferralTree\<close> finish for every input and every environment: from some bound
  on, every bound on the number of iterations (or on the depth) lets the call settle.
  Without acyclicity they need not: in the database where Sam refers himself, whose graph
  is cyclic, none of the three settles, whatever the bound.
\<close>

theorem traversals_terminate_when_acyclic:
  "(acyclicReferrers w \<longrightarrow>
      (\<exists>n. \<forall>m\<ge>n. processNewReferral m env nu code w \<noteq> None)
    \<and> (\<exists>n. \<forall>m\<ge>n. getUpline m env i w \<noteq> None)
    \<and> (\<exists>n. \<forall>m\<ge>n. buildReferralTree m env i w \<noteq> None))
   \<and> \<not> acyclicReferrers worldCyclic
   \<and> (\<forall>n. processNewReferral n env0 ''user_7_s'' ''SSSSSSS7'' worldCyclic = None)
   \<and> (\<forall>n. getUpline n env0 ''user_7_s'' worldCyclic = None)
   \<and> (\<forall>n. buildReferralTree n env0 ''user_7_s'' worldCyclic = None)"
proof (intro conjI impI allI)
  assume ac: "acyclicReferrers w"
  show "\<exists>n. \<forall>m\<ge>n. processNewReferral m env nu code w \<noteq> None"
    by (rule processNewReferral_settles [OF ac])
  show "\<exists>n. \<forall>m\<ge>n. getUpline m env i w \<noteq> None"
    by (rule getUpline_settles [OF ac])
  from buildReferralTree_settles [OF ac, of env i]
  show "\<exists>n. \<forall>m\<ge>n. buildReferralTree m env i w \<noteq> None" by blast
next
  show "\<not> acyclicReferrers worldCyclic" by (rule cyclic_worldCyclic)
next
  fix n
  show "processNewReferral n env0 ''user_7_s'' ''SSSSSSS7'' worldCyclic = None"
    by (rule processNewReferral_diverges)
  show "getUpline n env0 ''user_7_s'' worldCyclic = None"
    by (rule getUpline_diverges [OF noFaults_env0]) (simp add: worldCyclic_def)
  show "buildReferralTree n env0 ''user_7_s'' worldCyclic = None"
    by (rule buildReferralTree_diverges [OF noFaults_env0]) (simp add: worldCyclic_def)
qed

theorem traversals_terminate_when_acyclic_witness:
  "acyclicReferrers world0
   \<and> (\<exists>n. \<forall>m\<ge>n. processNewReferral m env0 ''user_3_c'' ''BBBBBBB2'' world0 \<noteq> None)
   \<and> (\<exists>n. \<forall>m\<ge>n. getUpline m env0 ''user_3_c'' world0 \<noteq> None)
   \<and> (\<exists>n. \<forall>m\<ge>n. buildReferralTree m env0 ''user_1_a'' world0 \<noteq> None)"
  using traversals_terminate_when_acyclic [of world0 env0 "''user_3_c''" "''BBBBBBB2''" "''user_3_c''"]
    traversals_terminate_when_acyclic [of world0 env0 "''user_3_c''" "''BBBBBBB2''" "''user_1_a''"]
    acyclicReferrers_world0
  by blast

section \<open>The tree that buildReferralTree builds\<close>

lemma resolves_resolve: "resolves (resolve a)"
  by (simp add: resolves_def resolve_def)

lemma resolves_diverge: "resolves diverge"
  by (simp add: resolves_def diverge_def)

lemma resolves_await: "resolves m \<Longrightarrow> (\<And>a. resolves (f a)) \<Longrightarrow> resolves (await m f)"
  by (auto simp: resolves_def await_def split: option.splits sum.splits)

lemma resolves_case_option:
  "resolves a \<Longrightarrow> (\<And>y. resolves (f y)) \<Longrightarrow> resolves (case x of None \<Rightarrow> a | Some y \<Rightarrow> f y)"
  by (cases x) simp_all

lemma resolves_forOf: "(\<And>x acc. resolves (body x acc)) \<Longrightarrow> resolves (forOf xs body acc)"
  by (induction xs arbitrary: acc) (auto intro!: resolves_resolve resolves_await)

lemma resolves_read: "noFaults env \<Longrightarrow> resolves (request env (\<lambda>w. Inr (g w, w)))"
  by (auto simp: resolves_def request_def noFaults_def Let_def)

lemma resolves_getDirectReferrals: "noFaults env \<Longrightarrow> resolves (getDirectReferrals env i)"
  unfolding getDirectReferrals_def getUserById_def getAllUsers_def
  by (intro resolves_await resolves_case_option resolves_resolve resolves_read)

lemma resolves_buildReferralTree: "noFaults env \<Longrightarrow> resolves (buildReferralTree n env i)"
proof (induction n arbitrary: i)
  case 0
  show ?case by (simp add: resolves_diverge)
next
  case (Suc n)
  have "resolves (getUserById env i)"
    unfolding getUserById_def by (rule resolves_read [OF Suc.prems])
  then show ?case
    unfolding buildReferralTree.simps
    by (intro resolves_await resolves_case_option resolves_resolve resolves_forOf
        resolves_getDirectReferrals Suc)
qed

lemma forOf_children:
  assumes body: "\<And>x w a w'. x \<in> set xs \<Longrightarrow> users w = U \<Longrightarrow> F x w = Some (Inr a, w')
                   \<Longrightarrow> \<exists>t. a = Some t \<and> Q x t"
    and pres: "\<And>x. preserves sameStores (F x)"
  shows "users w = U \<Longrightarrow>
         forOf xs (\<lambda>x cs. await (F x) (\<lambda>ct. case ct of Some t \<Rightarrow> resolve (cs @ [t])
                                                | None \<Rightarrow> resolve cs)) acc w = Some (Inr r, w')
         \<Longrightarrow> \<exists>ts. r = acc @ ts \<and> list_all2 Q xs ts"
  using body
proof (induction xs arbitrary: acc w)
  case Nil
  then show ?case by (simp add: resolve_def)
next
  case (Cons x xs)
  from Cons.prems(2)
  have "await (await (F x) (\<lambda>ct. case ct of Some t \<Rightarrow> resolve (acc @ [t]) | None \<Rightarrow> resolve acc))
          (\<lambda>acc'. forOf xs (\<lambda>x cs. await (F x) (\<lambda>ct. case ct of Some t \<Rightarrow> resolve (cs @ [t])
                                                | None \<Rightarrow> resolve cs)) acc') w = Some (Inr r, w')"
    by simp
  then show ?case
  proof (cases rule: await_SomeE)
    case (rejected e)
    then show ?thesis by simp
  next
    case (continued acc1 w1)
    from continued(1) obtain a w0 where a: "F x w = Some (Inr a, w0)"
      and r1: "(case a of Some t \<Rightarrow> resolve (acc @ [t]) | None \<Rightarrow> resolve acc) w0 = Some (Inr acc1, w1)"
      by (cases rule: await_SomeE) auto
    from Cons.prems(3) [OF _ Cons.prems(1) a] obtain t where t: "a = Some t" "Q x t" by auto
    with r1 have acc1: "acc1 = acc @ [t]" and w1: "w1 = w0" by (simp_all add: resolve_def)
    from preservesD [OF pres a] Cons.prems(1) have "users w1 = U"
      by (simp add: sameStores_def w1)
    from Cons.IH [OF this continued(2)] Cons.prems(3)
    obtain ts where "r = acc1 @ ts" "list_all2 Q xs ts" by auto
    with acc1 t(2) show ?thesis by (intro exI [of _ "t # ts"]) simp
  qed
qed

lemma buildReferralTree_sound:
  "buildReferralTree m env i w = Some (Inr x, w')
     \<Longrightarrow> (case userById w i of None \<Rightarrow> x = None
          | Some u \<Rightarrow> \<exists>t. x = Some t \<and> referralTree (users w) i t)"
proof (induction m arbitrary: i w x w')
  case 0
  then show ?case by (simp add: diverge_def)
next
  case (Suc k)
  let ?body = "\<lambda>referral' cs.
                    await (buildReferralTree k env (uid referral')) (\<lambda>childTree.
                      case childTree of
                        Some t \<Rightarrow> resolve (cs @ [t])
                      | None \<Rightarrow> resolve cs)"
  from Suc.prems have "await (getUserById env i) (\<lambda>user.
       case user of
         None \<Rightarrow> resolve None
       | Some u \<Rightarrow>
           await (getDirectReferrals env i) (\<lambda>directReferrals.
           await (forOf directReferrals ?body []) (\<lambda>cs.
           resolve (Some (Node u cs))))) w = Some (Inr x, w')"
    by simp
  then show ?case
  proof (cases rule: await_SomeE)
    case (rejected e)
    then show ?thesis by simp
  next
    case (continued a w1)
    from getUserById_InrD [OF continued(1)]
    have a: "a = userById w i" and w1: "w1 = w\<lparr>tick := Suc (tick w)\<rparr>" by simp_all
    show ?thesis
    proof (cases "userById w i")
      case None
      with continued(2) a show ?thesis by (simp add: resolve_def)
    next
      case (Some u)
      with continued(2) a
      have "await (getDirectReferrals env i) (\<lambda>directReferrals.
           await (forOf directReferrals ?body []) (\<lambda>cs.
           resolve (Some (Node u cs)))) w1 = Some (Inr x, w')"
        by simp
      then obtain dr w2 where dr: "getDirectReferrals env i w1 = Some (Inr dr, w2)"
        and rest: "await (forOf dr ?body []) (\<lambda>cs. resolve (Some (Node u cs))) w2 = Some (Inr x, w')"
        by (cases rule: await_SomeE) auto
      from getDirectReferrals_InrD [OF dr] Some w1
      have w2: "users w2 = users w"
        and dr': "dr = filter (\<lambda>v. referredBy v = Some (referralCode u)) (users w)"
        by simp_all
      from rest obtain cs w3 where cs: "forOf dr ?body [] w2 = Some (Inr cs, w3)"
        and x: "x = Some (Node u cs)"
        by (cases rule: await_SomeE) (auto simp: resolve_def)
      have "\<exists>ts. cs = [] @ ts
              \<and> list_all2 (\<lambda>v t. referralTree (users w) (uid v) t) dr ts"
      proof (rule forOf_children [where F="\<lambda>x. buildReferralTree k env (uid x)", OF _ _ w2 cs])
        fix v w'' a w'''
        assume v: "v \<in> set dr" and u'': "users w'' = users w"
          and b: "buildReferralTree k env (uid v) w'' = Some (Inr a, w''')"
        from v dr' have "v \<in> set (users w'')" by (simp add: u'')
        then obtain r where "userById w'' (uid v) = Some r"
          using userById_of_member by blast
        with Suc.IH [OF b] u''
        show "\<exists>t. a = Some t \<and> referralTree (users w) (uid v) t" by simp
      next
        fix v
        show "preserves sameStores (buildReferralTree k env (uid v))"
          by (rule preserves_buildReferralTree [OF stable_sameStores])
      qed
      then have "list_all2 (\<lambda>v t. referralTree (users w) (uid v) t) dr cs" by simp
      with Some dr' have "referralTree (users w) i (Node u cs)"
        by (intro referralTreeI) (simp_all add: userById_def)
      with Some x show ?thesis by simp
    qed
  qed
qed

section \<open>Network size and total referrals\<close>

lemma getReferralStats_tree:
  assumes "getReferralStats m env i w = Some (Inr (Some st), w')"
  shows "\<exists>t. referralTree (users w) i t \<and> totalReferrals st = treeSize t - 1"
proof -
  from assms have "await (buildReferralTree m env i) (\<lambda>tree.
       case tree of
         None \<Rightarrow> resolve None
       | Some t \<Rightarrow> resolve (Some (countReferrals t 0 initialStats))) w = Some (Inr (Some st), w')"
    by (simp only: getReferralStats_def)
  then show ?thesis
  proof (cases rule: await_SomeE)
    case (rejected e)
    then show ?thesis by simp
  next
    case (continued x w1)
    then obtain t where x: "x = Some t" and st: "st = countReferrals t 0 initialStats"
      by (cases x) (auto simp: resolve_def)
    from buildReferralTree_sound [OF continued(1)] x
    have "referralTree (users w) i t" by (cases "userById w i") auto
    moreover have "totalReferrals st = treeSize t - 1"
      by (simp add: st countReferrals_total initialStats_def)
    ultimately show ?thesis by blast
  qed
qed

lemma getReferralStats_settles:
  assumes ac: "acyclicReferrers w" and nf: "noFaults env" and u: "userById w i \<noteq> None"
  shows "\<exists>n. \<forall>k\<ge>n. \<exists>st w'. getReferralStats k env i w = Some (Inr (Some st), w')"
proof -
  from buildReferralTree_settles [OF ac, of env i]
  obtain n where n: "\<And>k. n \<le> k \<Longrightarrow> buildReferralTree k env i w \<noteq> None" by blast
  have "\<exists>st w'. getReferralStats k env i w = Some (Inr (Some st), w')" if "n \<le> k" for k
  proof -
    from n [OF that] obtain r w' where b: "buildReferralTree k env i w = Some (r, w')"
      by (cases "buildReferralTree k env i w") auto
    from resolves_buildReferralTree [OF nf, of k i] b obtain x where r: "r = Inr x"
      by (cases r) (auto simp: resolves_def)
    from buildReferralTree_sound [OF b [unfolded r]] u obtain t where x: "x = Some t"
      by (cases "userById w i") auto
    have "getReferralStats k env i w = Some (Inr (Some (countReferrals t 0 initialStats)), w')"
      unfolding getReferralStats_def
      by (rule await_step, rule b [unfolded r x]) (simp add: resolve_def)
    then show ?thesis by blast
  qed
  then show ?thesis by blast
qed

text \<open>
  C6. Whenever \<^verbatim>\<open>getReferralStats(u)\<close> returns an object of counts, \<^verbatim>\<open>getNetworkSize(u)\<close>
  returns its \<open>totalReferrals\<close>; both are the number of nodes of the full descendant tree
  of \<open>u\<close> other than its root, that is the descendants of \<open>u\<close> at every depth from 1 on.
  On an acyclic referrer graph, with requests that succeed, both calls do return these
  values for every existing user.
\<close>

theorem networkSize_equals_totalReferrals:
  "(\<forall>st w'. getReferralStats m env i w = Some (Inr (Some st), w') \<longrightarrow>
       getNetworkSize m env i w = Some (Inr (totalReferrals st), w')
       \<and> (\<exists>t. referralTree (users w) i t \<and> totalReferrals st = treeSize t - 1))
   \<and> (acyclicReferrers w \<and> noFaults env \<and> userById w i \<noteq> None \<longrightarrow>
       (\<exists>n. \<forall>k\<ge>n. \<exists>st w'. getReferralStats k env i w = Some (Inr (Some st), w')
                          \<and> getNetworkSize k env i w = Some (Inr (totalReferrals st), w')))"
proof (intro conjI allI impI)
  fix st w'
  assume a: "getReferralStats m env i w = Some (Inr (Some st), w')"
  then show "getNetworkSize m env i w = Some (Inr (totalReferrals st), w')"
    by (rule getNetworkSize_eq_totalReferrals)
  from a show "\<exists>t. referralTree (users w) i t \<and> totalReferrals st = treeSize t - 1"
    by (rule getReferralStats_tree)
next
  assume "acyclicReferrers w \<and> noFaults env \<and> userById w i \<noteq> None"
  then obtain n where "\<forall>k\<ge>n. \<exists>st w'. getReferralStats k env i w = Some (Inr (Some st), w')"
    using getReferralStats_settles by blast
  then have "\<forall>k\<ge>n. \<exists>st w'. getReferralStats k env i w = Some (Inr (Some st), w')
                          \<and> getNetworkSize k env i w = Some (Inr (totalReferrals st), w')"
    using getNetworkSize_eq_totalReferrals by blast
  then show "\<exists>n. \<forall>k\<ge>n. \<exists>st w'. getReferralStats k env i w = Some (Inr (Some st), w')
                          \<and> getNetworkSize k env i w = Some (Inr (totalReferrals st), w')"
    by blast
qed

theorem networkSize_equals_totalReferrals_witness:
  "acyclicReferrers world0 \<and> noFaults env0 \<and> userById world0 ''user_1_a'' \<noteq> None
   \<and> (\<exists>st w'. getReferralStats 3 env0 ''user_1_a'' world0 = Some (Inr (Some st), w')
         \<and> getNetworkSize 3 env0 ''user_1_a'' world0 = Some (Inr (totalReferrals st), w')
         \<and> totalReferrals st = 2)
   \<and> (\<exists>n. \<forall>k\<ge>n. \<exists>st w'. getReferralStats k env0 ''user_1_a'' world0 = Some (Inr (Some st), w')
         \<and> getNetworkSize k env0 ''user_1_a'' world0 = Some (Inr (totalReferrals st), w'))"
proof -
  have u: "userById world0 ''user_1_a'' \<noteq> None"
    by (simp add: userById_def world0_def userA_def newUserObject_def)
  have "map_option (\<lambda>(r, w). case r of Inr (Some st) \<Rightarrow> True | _ \<Rightarrow> False)
          (getReferralStats 3 env0 ''user_1_a'' world0) = Some True"
    by code_simp
  then obtain r w' where p: "getReferralStats 3 env0 ''user_1_a'' world0 = Some (r, w')"
    and c: "(case r of Inr (Some st) \<Rightarrow> True | _ \<Rightarrow> False)"
    by (cases "getReferralStats 3 env0 ''user_1_a'' world0") auto
  from c obtain st where "r = Inr (Some st)"
    by (cases r) (auto split: option.splits)
  with p have s: "getReferralStats 3 env0 ''user_1_a'' world0 = Some (Inr (Some st), w')"
    by simp
  have two: "map_option fst (getNetworkSize 3 env0 ''user_1_a'' world0) = Some (Inr 2)"
    by code_simp
  note inst = networkSize_equals_totalReferrals [of 3 env0 "''user_1_a''" world0]
  from inst s have g: "getNetworkSize 3 env0 ''user_1_a'' world0 = Some (Inr (totalReferrals st), w')"
    by blast
  with two have "totalReferrals st = 2" by simp
  with s g inst u acyclicReferrers_world0 noFaults_env0 show ?thesis by blast
qed

section \<open>The awards along a referrer chain\<close>

lemma awardsDone_tick: "awardsDone w (w\<lparr>tick := t\<rparr>) []"
  by (simp add: awardsDone_def sumEarnings_def)

lemma awardsDone_refl: "awardsDone w w []"
  by (simp add: awardsDone_def)

lemma awardsDone_trans:
  "awardsDone w w1 as \<Longrightarrow> awardsDone w1 w2 bs \<Longrightarrow> awardsDone w w2 (as @ bs)"
  by (auto simp: awardsDone_def)

lemma sum_totalEarnings_put:
  "find (\<lambda>u. uid u = uid r') xs = Some r \<Longrightarrow>
     sum_list (map totalEarnings (put r' xs))
       = sum_list (map totalEarnings xs) + (totalEarnings r' - totalEarnings r)"
  by (induction xs) (auto split: if_splits)

lemma totalEarnings_credit [simp]: "totalEarnings (credit lvl amount r) = totalEarnings r + amount"
  by (simp add: credit_def Let_def)

lemma awardsDone_awarded:
  assumes "userById w i = Some r"
  shows "awardsDone w (awarded env i nu lvl amount r (w\<lparr>tick := t\<rparr>)) [(i, nu, lvl, amount)]"
proof -
  let ?w1 = "w\<lparr>tick := t\<rparr>"
  have r: "userById ?w1 i = Some r" using assms by simp
  then have "uid r = i" by (rule userById_uid)
  with assms have f: "find (\<lambda>u. uid u = uid (credit lvl amount r)) (users w) = Some r"
    by (simp add: userById_def)
  have "map skel (users (awarded env i nu lvl amount r ?w1)) = map skel (users w)"
    using sameSkeleton_awarded [OF r] by simp
  moreover have "sumEarnings (awarded env i nu lvl amount r ?w1) = sumEarnings w + amount"
    using sum_totalEarnings_put [OF f] by (simp add: sumEarnings_def awarded_def)
  moreover have "referrals (awarded env i nu lvl amount r ?w1)
      = referrals w @ [awardRecord env t i nu lvl amount]"
    by (simp add: awarded_def)
  moreover have "core (awardRecord env t i nu lvl amount) = (i, nu, lvl, amount)"
    by (simp add: core_def awardRecord_def)
  ultimately show ?thesis by (simp add: awardsDone_def)
qed

lemma lookup_sameSkeleton:
  "map skel (users w') = map skel (users w)
     \<Longrightarrow> map_option skel (userByReferralCode w' c) = map_option skel (userByReferralCode w c)"
  by (simp add: codeIndex_skel)

lemma upchain_sameSkeleton:
  assumes "map skel (users w') = map skel (users w)"
  shows "upchain w rb ids \<Longrightarrow> upchain w' rb ids"
proof (induction rule: upchain.induct)
  case upchain_root
  show ?case by (rule upchain.upchain_root)
next
  case upchain_empty
  show ?case by (rule upchain.upchain_empty)
next
  case (upchain_break code)
  with lookup_sameSkeleton [OF assms, of code] have "userByReferralCode w' code = None" by simp
  with upchain_break(1) show ?case by (rule upchain.upchain_break)
next
  case (upchain_step code u ids)
  with lookup_sameSkeleton [OF assms, of code]
  obtain l where l: "userByReferralCode w' code = Some l" "skel l = skel u" by auto
  from l(2) have "uid l = uid u" "referredBy l = referredBy u" by (simp_all add: skel_def)
  with upchain.upchain_step [OF upchain_step(1) l(1)] upchain_step.IH show ?case by simp
qed

lemma upchain_NilE:
  assumes "upchain w rb []"
  shows "rb = None \<or> rb = Some [] \<or> (\<exists>code. rb = Some code \<and> code \<noteq> [] \<and> userByReferralCode w code = None)"
  using assms by (cases rule: upchain.cases) auto

lemma upchain_ConsE:
  assumes "upchain w rb (i # rest)"
  obtains code u where "rb = Some code" and "code \<noteq> []" and "userByReferralCode w code = Some u"
    and "uid u = i" and "upchain w (referredBy u) rest"
  using assms by (cases rule: upchain.cases) auto

lemma chain_step:
  assumes nf: "noFaults env" and ch: "upchain w rb ids" and fr: "freshIds env w"
    and amt: "amount = specReward lvl"
    and K: "\<And>u w1 rest. ids = uid u # rest \<Longrightarrow> upchain w1 (referredBy u) rest \<Longrightarrow> freshIds env w1
              \<Longrightarrow> \<exists>w'. K u w1 = Some (Inr (), w') \<and> awardsDone w1 w' (awardsFrom lvl' nu rest)
                       \<and> freshIds env w'"
    and lvl': "lvl' = lvl + 1"
  shows "\<exists>w'. ifTruthy rb (\<lambda>code. await (getUserByReferralCode env code) (\<lambda>x.
                 case x of
                   None \<Rightarrow> resolve ()
                 | Some l \<Rightarrow> await (awardEarnings env (uid l) nu lvl amount) (\<lambda>_. K l))) w
               = Some (Inr (), w')
             \<and> awardsDone w w' (awardsFrom lvl nu ids) \<and> freshIds env w'"
proof (cases ids)
  case Nil
  from upchain_NilE [OF ch [unfolded Nil]]
  consider "rb = None \<or> rb = Some []"
    | code where "rb = Some code" "code \<noteq> []" "userByReferralCode w code = None" by blast
  then show ?thesis
  proof cases
    case 1
    then show ?thesis
      using fr by (auto simp: ifTruthy_def resolve_def Nil awardsDone_refl)
  next
    case 2
    have "freshIds env (w\<lparr>tick := Suc (tick w)\<rparr>)" by (rule freshIds_tick [OF fr]) simp
    then show ?thesis
      using 2 by (simp add: ifTruthy_def link_unresolved [OF nf] resolve_def Nil awardsDone_tick)
  qed
next
  case (Cons i rest)
  from ch [unfolded Cons] obtain code u where rb: "rb = Some code" "code \<noteq> []"
    and u: "userByReferralCode w code = Some u" "uid u = i" "upchain w (referredBy u) rest"
    by (rule upchain_ConsE)
  from userByReferralCode_mem [OF u(1)] obtain r where r: "userById w (uid u) = Some r"
    using userById_of_member by blast
  let ?w1 = "awarded env (uid u) nu lvl amount r (w\<lparr>tick := Suc (tick w)\<rparr>)"
  have d1: "awardsDone w ?w1 [(uid u, nu, lvl, amount)]" by (rule awardsDone_awarded [OF r])
  then have sk: "map skel (users ?w1) = map skel (users w)" by (simp add: awardsDone_def)
  have fr1: "freshIds env ?w1" by (intro freshIds_awarded freshIds_tick fr) simp
  have "upchain ?w1 (referredBy u) rest" by (rule upchain_sameSkeleton [OF sk u(3)])
  from K [OF _ this fr1] Cons u(2)
  obtain w' where w': "K u ?w1 = Some (Inr (), w')" "awardsDone ?w1 w' (awardsFrom lvl' nu rest)"
    "freshIds env w'" by auto
  from awardsDone_trans [OF d1 w'(2)]
  have "awardsDone w w' (awardsFrom lvl nu ids)" by (simp add: Cons u(2) amt lvl')
  with w'(1,3) show ?thesis
    by (simp add: rb ifTruthy_def link_ok [OF nf fr u(1) r])
qed

lemma specReward_4plus: "4 \<le> lvl \<Longrightarrow> rs_level4Plus rewardStructure = specReward lvl"
  by (simp add: rewardStructure_def specReward_def)

lemma level4Loop_chain:
  assumes nf: "noFaults env"
  shows "upchain w (referredBy cur) ids \<Longrightarrow> freshIds env w \<Longrightarrow> length ids < fuel \<Longrightarrow> 4 \<le> lvl
           \<Longrightarrow> \<exists>w'. level4Loop fuel env nu cur lvl w = Some (Inr (), w')
                    \<and> awardsDone w w' (awardsFrom lvl nu ids) \<and> freshIds env w'"
proof (induction fuel arbitrary: w cur ids lvl)
  case 0
  then show ?case by simp
next
  case (Suc k)
  show ?case
    unfolding level4Loop.simps
  proof (rule chain_step [OF nf Suc.prems(1,2) specReward_4plus [OF Suc.prems(4)]])
    fix u :: user and w1 :: world and rest :: "string list"
    assume "ids = uid u # rest" and "upchain w1 (referredBy u) rest" and "freshIds env w1"
    with Suc.prems(3,4)
    show "\<exists>w'. level4Loop k env nu u (lvl + 1) w1 = Some (Inr (), w')
               \<and> awardsDone w1 w' (awardsFrom (lvl + 1) nu rest) \<and> freshIds env w'"
      by (intro Suc.IH) simp_all
  qed simp
qed

lemma processBody_chain:
  assumes nf: "noFaults env" and fr: "freshIds env w" and nu: "userById w nu = Some c"
    and u: "userByReferralCode w code = Some u" and ch: "upchain w (referredBy u) rest"
    and fuel: "length rest < fuel + 2"
  shows "\<exists>w'. processBody fuel env nu code w = Some (Inr (), w')
             \<and> awardsDone w w' (awardsFrom 1 nu (uid u # rest)) \<and> freshIds env w'"
proof -
  let ?w1 = "w\<lparr>tick := Suc (tick w)\<rparr>"
  have f: "\<And>t. fault env t = None" using nf by (simp add: noFaults_def)
  from userByReferralCode_mem [OF u] obtain r where r: "userById w (uid u) = Some r"
    using userById_of_member by blast
  let ?w2 = "awarded env (uid u) nu 1 (rs_level1 rewardStructure) r (?w1\<lparr>tick := Suc (tick ?w1)\<rparr>)"
  let ?rest = "ifTruthy (referredBy u) (\<lambda>code1.
     await (getUserByReferralCode env code1) (\<lambda>level2Referrer.
       case level2Referrer of
         None \<Rightarrow> resolve ()
       | Some l2 \<Rightarrow>
     await (awardEarnings env (uid l2) nu 2 (rs_level2 rewardStructure)) (\<lambda>_.
     ifTruthy (referredBy l2) (\<lambda>code2.
     await (getUserByReferralCode env code2) (\<lambda>level3Referrer.
       case level3Referrer of
         None \<Rightarrow> resolve ()
       | Some l3 \<Rightarrow>
     await (awardEarnings env (uid l3) nu 3 (rs_level3 rewardStructure)) (\<lambda>_.
     level4Loop fuel env nu l3 4))))))"
  have fr1: "freshIds env ?w1" by (rule freshIds_tick [OF fr]) simp
  have u1: "userByReferralCode ?w1 code = Some u" "userById ?w1 (uid u) = Some r"
    using u r by simp_all
  have eq: "processBody fuel env nu code w = ?rest ?w2"
    unfolding processBody_def
    apply (rule await_step, rule getUserById_ok, rule f)
    apply (simp only: nu option.case)
    apply (rule link_ok [OF nf fr1 u1])
    done
  have "awardsDone ?w1 ?w2 [(uid u, nu, 1, rs_level1 rewardStructure)]"
    by (rule awardsDone_awarded [OF u1(2)])
  then have d1: "awardsDone w ?w2 [(uid u, nu, 1, specReward 1)]"
    by (simp add: awardsDone_def sumEarnings_def rewardStructure_def specReward_def)
  then have sk: "map skel (users ?w2) = map skel (users w)" by (simp add: awardsDone_def)
  have fr2: "freshIds env ?w2" by (intro freshIds_awarded freshIds_tick fr1) simp
  have ch2: "upchain ?w2 (referredBy u) rest" by (rule upchain_sameSkeleton [OF sk ch])
  have "\<exists>w'. ?rest ?w2 = Some (Inr (), w') \<and> awardsDone ?w2 w' (awardsFrom 2 nu rest)
             \<and> freshIds env w'"
    apply (rule chain_step [OF nf ch2 fr2])
      apply (simp add: rewardStructure_def specReward_def)
     apply (rule chain_step [OF nf], assumption, assumption)
       apply (simp add: rewardStructure_def specReward_def)
      apply (rule level4Loop_chain [OF nf], assumption, assumption)
    using fuel apply simp
      apply simp
     apply simp
    apply simp
    done
  then obtain w' where w': "?rest ?w2 = Some (Inr (), w')"
    "awardsDone ?w2 w' (awardsFrom 2 nu rest)" "freshIds env w'" by blast
  from awardsDone_trans [OF d1 w'(2)] have "awardsDone w w' (awardsFrom 1 nu (uid u # rest))"
    by simp
  with w'(1,3) eq show ?thesis by simp
qed

lemma awardsFrom_referrers: "map fst (awardsFrom lvl nu ids) = ids"
  by (induction ids arbitrary: lvl) simp_all

lemma awardsFrom_referred: "a \<in> set (awardsFrom lvl nu ids) \<Longrightarrow> fst (snd a) = nu"
  by (induction ids arbitrary: lvl) auto

lemma awardsFrom_amounts:
  "a \<in> set (awardsFrom lvl nu ids) \<Longrightarrow> snd (snd (snd a)) = specReward (fst (snd (snd a)))"
  by (induction ids arbitrary: lvl) auto

lemma awardsFrom_levels:
  "map (\<lambda>a. fst (snd (snd a))) (awardsFrom (int m) nu ids) = map int [m..<m + length ids]"
proof (induction ids arbitrary: m)
  case Nil
  show ?case by simp
next
  case (Cons i ids)
  have e: "int m + 1 = int (Suc m)" by simp
  have "[m..<m + length (i # ids)] = m # [Suc m..<Suc m + length ids]"
    by (simp add: upt_conv_Cons del: upt_Suc)
  then show ?case
    by (simp only: awardsFrom.simps list.map fst_conv snd_conv e Cons [of "Suc m"])
qed

lemma awards_facts:
  assumes "map core recs = awardsFrom 1 nu ids"
  shows "map referrerId recs = ids" and "\<forall>r\<in>set recs. referredId r = nu"
    and "map level recs = map int [1..<Suc (length ids)]"
    and "\<forall>r\<in>set recs. earnings r = specReward (level r)"
proof -
  have "map referrerId recs = map fst (map core recs)" by (simp add: core_def)
  then show "map referrerId recs = ids" by (simp add: assms awardsFrom_referrers)
  have mem: "core r \<in> set (awardsFrom 1 nu ids)" if "r \<in> set recs" for r
    using that assms by (metis image_eqI set_map)
  show "\<forall>r\<in>set recs. referredId r = nu"
    using awardsFrom_referred [OF mem] by (simp add: core_def)
  show "\<forall>r\<in>set recs. earnings r = specReward (level r)"
    using awardsFrom_amounts [OF mem] by (simp add: core_def)
  have "map level recs = map (\<lambda>a. fst (snd (snd a))) (map core recs)" by (simp add: core_def)
  also have "\<dots> = map int [1..<1 + length ids]"
    using awardsFrom_levels [of 1 nu ids] by (simp add: assms)
  finally show "map level recs = map int [1..<Suc (length ids)]" by simp
qed

lemma count_levels:
  assumes "map level recs = map int xs"
  shows "length (filter (\<lambda>r. P (level r)) recs) = length (filter (\<lambda>k. P (int k)) xs)"
proof -
  have "length (filter (\<lambda>r. P (level r)) recs) = length (filter P (map level recs))"
    by (simp add: filter_map comp_def)
  also have "\<dots> = length (filter (\<lambda>k. P (int k)) xs)"
    by (simp add: assms filter_map comp_def)
  finally show ?thesis .
qed

lemma length_filter_upt_eq:
  "length (filter (\<lambda>k. k = a) [m..<n]) = (if m \<le> a \<and> a < n then 1 else 0)"
  by (induction n) auto

lemma length_filter_upt_ge: "length (filter (\<lambda>k. a \<le> k) [m..<n]) = n - max m a"
  by (induction n) auto

lemma award_counts:
  assumes lv: "map level recs = map int [1..<Suc n]"
    and am: "\<forall>r\<in>set recs. earnings r = specReward (level r)"
  shows "length (filter (\<lambda>r. level r = 1 \<and> earnings r = 100) recs) = min n 1"
    and "length (filter (\<lambda>r. level r = 2 \<and> earnings r = 60) recs) = min (n - 1) 1"
    and "length (filter (\<lambda>r. level r = 3 \<and> earnings r = 40) recs) = min (n - 2) 1"
    and "length (filter (\<lambda>r. 4 \<le> level r \<and> earnings r = 20) recs) = n - 3"
    and "map level (drop 3 recs) = map int [4..<Suc n]"
proof -
  have 1: "filter (\<lambda>r. level r = 1 \<and> earnings r = 100) recs = filter (\<lambda>r. level r = 1) recs"
    using am by (intro filter_cong refl) (auto simp: specReward_def)
  have 2: "filter (\<lambda>r. level r = 2 \<and> earnings r = 60) recs = filter (\<lambda>r. level r = 2) recs"
    using am by (intro filter_cong refl) (auto simp: specReward_def)
  have 3: "filter (\<lambda>r. level r = 3 \<and> earnings r = 40) recs = filter (\<lambda>r. level r = 3) recs"
    using am by (intro filter_cong refl) (auto simp: specReward_def)
  have 4: "filter (\<lambda>r. 4 \<le> level r \<and> earnings r = 20) recs = filter (\<lambda>r. 4 \<le> level r) recs"
    using am by (intro filter_cong refl) (auto simp: specReward_def)
  show "length (filter (\<lambda>r. level r = 1 \<and> earnings r = 100) recs) = min n 1"
    unfolding 1 using count_levels [OF lv, of "\<lambda>l. l = 1"] length_filter_upt_eq [of 1 1 "Suc n"]
    by simp
  show "length (filter (\<lambda>r. level r = 2 \<and> earnings r = 60) recs) = min (n - 1) 1"
    unfolding 2 using count_levels [OF lv, of "\<lambda>l. l = 2"] length_filter_upt_eq [of 2 1 "Suc n"]
    by simp
  show "length (filter (\<lambda>r. level r = 3 \<and> earnings r = 40) recs) = min (n - 2) 1"
    unfolding 3 using count_levels [OF lv, of "\<lambda>l. l = 3"] length_filter_upt_eq [of 3 1 "Suc n"]
    by simp
  show "length (filter (\<lambda>r. 4 \<le> level r \<and> earnings r = 20) recs) = n - 3"
    unfolding 4 using count_levels [OF lv, of "\<lambda>l. 4 \<le> l"] length_filter_upt_ge [of 4 1 "Suc n"]
    by simp
  have "map level (drop 3 recs) = drop 3 (map level recs)" by (simp add: drop_map)
  also have "\<dots> = map int (drop 3 [1..<Suc n])" by (simp add: lv drop_map)
  finally show "map level (drop 3 recs) = map int [4..<Suc n]" by simp
qed

lemma upchain_exists:
  assumes ac: "acyclicReferrers w"
  shows "s \<in> set (map skel (users w)) \<Longrightarrow> \<exists>ids. upchain w (snd (snd s)) ids"
proof -
  have "wf (inv_image ((referrerGraph w)\<inverse>) fst)"
    using wf_referrerGraph_converse [OF ac] by (rule wf_inv_image)
  then show "s \<in> set (map skel (users w)) \<Longrightarrow> \<exists>ids. upchain w (snd (snd s)) ids"
  proof (induction s rule: wf_induct_rule)
    case (less s)
    show ?case
    proof (cases "snd (snd s)")
      case None
      then show ?thesis using upchain_root by auto
    next
      case (Some code)
      show ?thesis
      proof (cases "code = []")
        case True
        with Some show ?thesis using upchain_empty by auto
      next
        case False
        show ?thesis
        proof (cases "userByReferralCode w code")
          case None
          with Some False show ?thesis using upchain_break by auto
        next
          case v: (Some v)
          from userByReferralCode_mem [OF v] have mem: "skel v \<in> set (map skel (users w))" by simp
          from less.IH [OF skel_edge [OF less.prems Some v] mem]
          obtain ids where "upchain w (referredBy v) ids" by (auto simp: skel_def)
          from upchain_step [OF False v this] Some show ?thesis by auto
        qed
      qed
    qed
  qed
qed

lemma referrerChain_exists:
  assumes "acyclicReferrers w"
  shows "\<exists>ids. referrerChain w code ids"
proof (cases "userByReferralCode w code")
  case None
  then show ?thesis by (simp add: referrerChain_def)
next
  case (Some u)
  from userByReferralCode_mem [OF Some] have "skel u \<in> set (map skel (users w))" by simp
  from upchain_exists [OF assms this] obtain rest where "upchain w (referredBy u) rest"
    by (auto simp: skel_def)
  with Some show ?thesis by (auto simp: referrerChain_def)
qed



section \<open>The three-user example\<close>

lemma find_code_Some: "find (\<lambda>u. referralCode u = c) xs = Some y \<Longrightarrow> referralCode y = c"
  by (induction xs) (auto split: if_splits)

lemma find_code_put:
  "find (\<lambda>u. uid u = uid r') xs = Some r0 \<Longrightarrow> referralCode r' = referralCode r0 \<Longrightarrow>
     find (\<lambda>u. referralCode u = c) (put r' xs)
       = (if find (\<lambda>u. referralCode u = c) xs = Some r0 then Some r'
          else find (\<lambda>u. referralCode u = c) xs)"
proof (induction xs)
  case Nil
  then show ?case by simp
next
  case (Cons x xs)
  show ?case
  proof (cases "uid x = uid r'")
    case True
    with Cons.prems have x: "x = r0" by simp
    show ?thesis
    proof (cases "referralCode r0 = c")
      case True
      with x \<open>uid x = uid r'\<close> Cons.prems(2) show ?thesis by simp
    next
      case False
      then have "find (\<lambda>u. referralCode u = c) xs \<noteq> Some r0"
        using find_code_Some by blast
      with False x \<open>uid x = uid r'\<close> Cons.prems(2) show ?thesis by simp
    qed
  next
    case False
    with Cons.prems have f: "find (\<lambda>u. uid u = uid r') xs = Some r0" by simp
    then have "uid r0 = uid r'" by (rule find_id_uid)
    with False have "x \<noteq> r0" by auto
    with False Cons.IH [OF f Cons.prems(2)] show ?thesis by simp
  qed
qed

lemma userByReferralCode_awarded:
  assumes "userById w i = Some r"
  shows "userByReferralCode (awarded env i nu lvl amount r w) c
           = (if userByReferralCode w c = Some r then Some (credit lvl amount r)
              else userByReferralCode w c)"
proof -
  from assms have "uid r = i" by (rule userById_uid)
  with assms have "find (\<lambda>u. uid u = uid (credit lvl amount r)) (users w) = Some r"
    by (simp add: userById_def)
  from find_code_put [OF this, of c] show ?thesis
    by (simp add: userByReferralCode_def awarded_def credit_def Let_def)
qed

lemma three_user_run:
  assumes nf: "noFaults env" and fr: "freshIds env w"
    and c: "userById w nu = Some cu"
    and b: "userByReferralCode w cb = Some b" "userById w (uid b) = Some b"
      "referredBy b = Some ca" "ca \<noteq> []"
    and a: "userByReferralCode w ca = Some a" "userById w (uid a) = Some a" "referredBy a = None"
  shows "processBody fuel env nu cb w
           = Some (Inr (),
               awarded env (uid a) nu 2 (rs_level2 rewardStructure) a
                 ((awarded env (uid b) nu 1 (rs_level1 rewardStructure) b
                    (w\<lparr>tick := Suc (Suc (tick w))\<rparr>))
                  \<lparr>tick := Suc (tick w + 8)\<rparr>))"
proof -
  let ?w1 = "w\<lparr>tick := Suc (tick w)\<rparr>"
  let ?w2 = "awarded env (uid b) nu 1 (rs_level1 rewardStructure) b (?w1\<lparr>tick := Suc (tick ?w1)\<rparr>)"
  let ?w3 = "awarded env (uid a) nu 2 (rs_level2 rewardStructure) a (?w2\<lparr>tick := Suc (tick ?w2)\<rparr>)"
  have f: "\<And>t. fault env t = None" using nf by (simp add: noFaults_def)
  have ab: "a \<noteq> b" using a(3) b(3) by auto
  then have iab: "uid b \<noteq> uid a" using a(2) b(2) by auto
  have fr1: "freshIds env ?w1" by (rule freshIds_tick [OF fr]) simp
  have b1: "userByReferralCode ?w1 cb = Some b" "userById ?w1 (uid b) = Some b"
    using b by simp_all
  have fr2: "freshIds env ?w2" by (intro freshIds_awarded freshIds_tick fr1) simp
  have a2: "userByReferralCode ?w2 ca = Some a"
    using userByReferralCode_awarded [of "?w1\<lparr>tick := Suc (tick ?w1)\<rparr>" "uid b" b env nu 1
        "rs_level1 rewardStructure" ca] b(2) a(1) ab
    by simp
  have a2': "userById ?w2 (uid a) = Some a"
    using iab a(2) by (simp add: userById_awarded)
  have "processBody fuel env nu cb w = Some (Inr (), ?w3)"
    unfolding processBody_def
    apply (rule await_step, rule getUserById_ok, rule f)
    apply (simp only: c option.case)
    apply (simp only: link_ok [OF nf fr1 b1])
    apply (simp only: b(3) ifTruthy_def option.case b(4) if_False)
    apply (simp only: link_ok [OF nf fr2 a2 a2'])
    apply (simp only: a(3) ifTruthy_def option.case resolve_def)
    done
  moreover have "tick ?w2 = tick w + 8" by (simp add: awarded_def)
  ultimately show ?thesis by simp
qed

text \<open>
  C2. In a store that holds a root user A (no referrer), a user B with
  \<open>B.referredBy = A.referralCode\<close> and a user C, with requests that succeed and fresh
  identifiers, \<^verbatim>\<open>processNewReferral(C.id, B.referralCode)\<close> returns the success object;
  afterwards B's \<open>totalEarnings\<close> and \<open>level1\<close> bucket are higher by 100, A's
  \<open>totalEarnings\<close> and \<open>level2\<close> bucket are higher by 60, and exactly two referral
  records have been appended: B at level 1 with 100 and A at level 2 with 60, both for C.
\<close>

theorem three_user_example:
  assumes "noFaults env" and "freshIds env w"
    and "userById w (uid c) = Some c"
    and "userById w (uid b) = Some b" and "userByReferralCode w (referralCode b) = Some b"
    and "userById w (uid a) = Some a" and "userByReferralCode w (referralCode a) = Some a"
    and "referredBy b = Some (referralCode a)" and "referralCode a \<noteq> []"
    and "referredBy a = None"
  shows "\<exists>w'. processNewReferral fuel env (uid c) (referralCode b) w = Some (Inr Success, w')
           \<and> userById w' (uid b)
               = Some (b\<lparr>totalEarnings := totalEarnings b + 100,
                         earningsByLevel := (earningsByLevel b)
                           \<lparr>level1 := level1 (earningsByLevel b) + 100\<rparr>\<rparr>)
           \<and> userById w' (uid a)
               = Some (a\<lparr>totalEarnings := totalEarnings a + 60,
                         earningsByLevel := (earningsByLevel a)
                           \<lparr>level2 := level2 (earningsByLevel a) + 60\<rparr>\<rparr>)
           \<and> (\<exists>r1 r2. referrals w' = referrals w @ [r1, r2]
                  \<and> core r1 = (uid b, uid c, 1, 100) \<and> core r2 = (uid a, uid c, 2, 60))
           \<and> length (referrals w') = length (referrals w) + 2"
proof -
  let ?w2 = "awarded env (uid b) (uid c) 1 (rs_level1 rewardStructure) b
               (w\<lparr>tick := Suc (Suc (tick w))\<rparr>)"
  let ?w3 = "awarded env (uid a) (uid c) 2 (rs_level2 rewardStructure) a
               (?w2\<lparr>tick := Suc (tick w + 8)\<rparr>)"
  have run: "processBody fuel env (uid c) (referralCode b) w = Some (Inr (), ?w3)"
    by (rule three_user_run [OF assms(1,2,3) assms(5,4,8,9) assms(7,6,10)])
  have "a \<noteq> b" using assms(8,10) by auto
  then have iab: "uid b \<noteq> uid a" using assms(4,6) by auto
  have ub: "userById ?w3 (uid b) = Some (credit 1 100 b)"
    using iab by (simp add: userById_awarded rewardStructure_def)
  have ua: "userById ?w3 (uid a) = Some (credit 2 60 a)"
    by (simp add: userById_awarded rewardStructure_def)
  have recs: "referrals ?w3 = referrals w @
      [awardRecord env (Suc (Suc (tick w))) (uid b) (uid c) 1 100,
       awardRecord env (Suc (tick w + 8)) (uid a) (uid c) 2 60]"
    by (simp add: awarded_def rewardStructure_def)
  have cores: "core (awardRecord env t i n l m) = (i, n, l, m)" for t i n l m
    by (simp add: core_def awardRecord_def)
  show ?thesis
  proof (intro exI [of _ ?w3] conjI)
    show "processNewReferral fuel env (uid c) (referralCode b) w = Some (Inr Success, ?w3)"
      by (simp add: processNewReferral_def run)
    show "userById ?w3 (uid b)
               = Some (b\<lparr>totalEarnings := totalEarnings b + 100,
                         earningsByLevel := (earningsByLevel b)
                           \<lparr>level1 := level1 (earningsByLevel b) + 100\<rparr>\<rparr>)"
      unfolding ub by (simp add: credit_def Let_def)
    show "userById ?w3 (uid a)
               = Some (a\<lparr>totalEarnings := totalEarnings a + 60,
                         earningsByLevel := (earningsByLevel a)
                           \<lparr>level2 := level2 (earningsByLevel a) + 60\<rparr>\<rparr>)"
      unfolding ua by (simp add: credit_def Let_def)
    show "\<exists>r1 r2. referrals ?w3 = referrals w @ [r1, r2]
                  \<and> core r1 = (uid b, uid c, 1, 100) \<and> core r2 = (uid a, uid c, 2, 60)"
      unfolding recs using cores by blast
    show "length (referrals ?w3) = length (referrals w) + 2"
      unfolding recs by simp
  qed
qed

theorem three_user_example_witness:
  "noFaults env0 \<and> freshIds env0 world0
   \<and> userById world0 (uid userC) = Some userC
   \<and> userById world0 (uid userB) = Some userB
   \<and> userByReferralCode world0 (referralCode userB) = Some userB
   \<and> userById world0 (uid userA) = Some userA
   \<and> userByReferralCode world0 (referralCode userA) = Some userA
   \<and> referredBy userB = Some (referralCode userA) \<and> referralCode userA \<noteq> []
   \<and> referredBy userA = None
   \<and> (\<exists>w'. processNewReferral 0 env0 ''user_3_c'' ''BBBBBBB2'' world0 = Some (Inr Success, w')
          \<and> map_option totalEarnings (userById w' ''user_2_b'') = Some 100
          \<and> map_option (level1 \<circ> earningsByLevel) (userById w' ''user_2_b'') = Some 100
          \<and> map_option totalEarnings (userById w' ''user_1_a'') = Some 60
          \<and> map_option (level2 \<circ> earningsByLevel) (userById w' ''user_1_a'') = Some 60
          \<and> length (referrals w') = 2)"
proof -
  have fr: "freshIds env0 world0" by (rule freshIds_env0) (simp add: world0_def)
  have h: "userById world0 (uid userC) = Some userC"
    "userById world0 (uid userB) = Some userB"
    "userByReferralCode world0 (referralCode userB) = Some userB"
    "userById world0 (uid userA) = Some userA"
    "userByReferralCode world0 (referralCode userA) = Some userA"
    "referredBy userB = Some (referralCode userA)" "referralCode userA \<noteq> []"
    "referredBy userA = None"
    by (simp_all add: userById_def userByReferralCode_def world0_def userA_def userB_def
        userC_def newUserObject_def)
  have v: "uid userC = ''user_3_c''" "referralCode userB = ''BBBBBBB2''"
    "uid userB = ''user_2_b''" "uid userA = ''user_1_a''"
    "totalEarnings userB = 0" "totalEarnings userA = 0"
    "level1 (earningsByLevel userB) = 0" "level2 (earningsByLevel userA) = 0"
    "referrals world0 = []"
    by (simp_all add: world0_def userA_def userB_def userC_def newUserObject_def)
  from three_user_example [OF noFaults_env0 fr h, of 0]
  obtain w' where "processNewReferral 0 env0 (uid userC) (referralCode userB) world0 = Some (Inr Success, w')"
    "userById w' (uid userB)
               = Some (userB\<lparr>totalEarnings := totalEarnings userB + 100,
                         earningsByLevel := (earningsByLevel userB)
                           \<lparr>level1 := level1 (earningsByLevel userB) + 100\<rparr>\<rparr>)"
    "userById w' (uid userA)
               = Some (userA\<lparr>totalEarnings := totalEarnings userA + 60,
                         earningsByLevel := (earningsByLevel userA)
                           \<lparr>level2 := level2 (earningsByLevel userA) + 60\<rparr>\<rparr>)"
    "length (referrals w') = length (referrals world0) + 2"
    by blast
  then have "\<exists>w'. processNewReferral 0 env0 ''user_3_c'' ''BBBBBBB2'' world0 = Some (Inr Success, w')
          \<and> map_option totalEarnings (userById w' ''user_2_b'') = Some 100
          \<and> map_option (level1 \<circ> earningsByLevel) (userById w' ''user_2_b'') = Some 100
          \<and> map_option totalEarnings (userById w' ''user_1_a'') = Some 60
          \<and> map_option (level2 \<circ> earningsByLevel) (userById w' ''user_1_a'') = Some 60
          \<and> length (referrals w') = 2"
    by (intro exI [of _ w']) (simp add: v)
  with noFaults_env0 fr h show ?thesis by blast
qed

section \<open>No exception, no rollback\<close>

lemma notLess_refl: "notLess u u"
  by (simp add: notLess_def)

lemma notLess_trans: "notLess a b \<Longrightarrow> notLess b c \<Longrightarrow> notLess a c"
  by (auto simp: notLess_def)

lemma list_all2_notLess_refl: "list_all2 notLess xs xs"
  by (simp add: list_all2_refl notLess_refl)

lemma list_all2_notLess_trans:
  "list_all2 notLess xs ys \<Longrightarrow> list_all2 notLess ys zs \<Longrightarrow> list_all2 notLess xs zs"
  by (rule list_all2_trans [of notLess notLess notLess]) (auto intro: notLess_trans)

lemma stable_grown: "stable grown"
  unfolding stable_def grown_def
  by (auto simp: list_all2_notLess_refl intro: list_all2_notLess_trans)

lemma notLess_credit: "0 \<le> amount \<Longrightarrow> notLess r (credit lvl amount r)"
  by (simp add: notLess_def credit_def Let_def skel_def)

lemma list_all2_notLess_put:
  "find (\<lambda>u. uid u = uid r') xs = Some r \<Longrightarrow> notLess r r' \<Longrightarrow> list_all2 notLess xs (put r' xs)"
  by (induction xs) (auto simp: list_all2_notLess_refl notLess_refl split: if_splits)

lemma awardClosed_grown: "awardClosed (\<lambda>a. 0 \<le> a) grown"
proof -
  have "list_all2 notLess (users w) (put (credit lvl amount r) (users w))"
    if "userById w i = Some r" and "0 \<le> amount" for w i r lvl amount
  proof (rule list_all2_notLess_put)
    from that(1) have "uid r = i" by (rule userById_uid)
    with that(1) show "find (\<lambda>u. uid u = uid (credit lvl amount r)) (users w) = Some r"
      by (simp add: userById_def)
    show "notLess r (credit lvl amount r)" by (rule notLess_credit [OF that(2)])
  qed
  then show ?thesis
    by (simp add: awardClosed_def grown_def list_all2_notLess_refl)
qed

lemma rewards_nonneg:
  "0 \<le> rs_level1 rewardStructure" "0 \<le> rs_level2 rewardStructure"
  "0 \<le> rs_level3 rewardStructure" "0 \<le> rs_level4Plus rewardStructure"
  by (simp_all add: rewardStructure_def)

lemma find_id_notLess:
  "list_all2 notLess xs ys \<Longrightarrow> find (\<lambda>u. uid u = i) xs = Some x
     \<Longrightarrow> \<exists>y. find (\<lambda>u. uid u = i) ys = Some y \<and> notLess x y"
proof (induction rule: list_all2_induct)
  case Nil
  then show ?case by simp
next
  case (Cons a xs b ys)
  from Cons.hyps(1) have "uid b = uid a" by (simp add: notLess_def skel_def)
  with Cons show ?case by (auto split: if_splits)
qed

lemma grown_userById:
  "grown w w' \<Longrightarrow> userById w i = Some x \<Longrightarrow> \<exists>y. userById w' i = Some y \<and> notLess x y"
  unfolding grown_def userById_def by (blast dest: find_id_notLess)

lemma processNewReferral_result:
  "processNewReferral fuel env nu code w = Some (r, w')
     \<Longrightarrow> r = Inr Success \<or> (\<exists>m. r = Inr (Failure m))"
  by (auto simp: processNewReferral_def split: option.splits sum.splits)

lemma processNewReferral_returns:
  assumes "acyclicReferrers w"
  shows "\<exists>n. \<forall>k\<ge>n. \<exists>r w'. processNewReferral k env nu code w = Some (Inr r, w')"
proof -
  from processNewReferral_settles [OF assms, of env nu code]
  obtain n where n: "\<And>k. n \<le> k \<Longrightarrow> processNewReferral k env nu code w \<noteq> None" by blast
  have "\<exists>r w'. processNewReferral k env nu code w = Some (Inr r, w')" if "n \<le> k" for k
  proof -
    from n [OF that] obtain p w' where "processNewReferral k env nu code w = Some (p, w')"
      by (cases "processNewReferral k env nu code w") auto
    with processNewReferral_result [OF this] show ?thesis by auto
  qed
  then show ?thesis by blast
qed

lemma first_award_run:
  assumes c: "userById w nu = Some cu" and u: "userByReferralCode w code = Some u"
    and r: "userById w (uid u) = Some r"
    and nf: "\<forall>k<8. fault env (tick w + k) = None"
    and fresh: "referralIdAt env (tick w + 4) \<notin> rid ` set (referrals w)"
  shows "processBody fuel env nu code w
           = ifTruthy (referredBy u) (\<lambda>code1.
               await (getUserByReferralCode env code1) (\<lambda>level2Referrer.
                 case level2Referrer of
                   None \<Rightarrow> resolve ()
                 | Some l2 \<Rightarrow>
               await (awardEarnings env (uid l2) nu 2 (rs_level2 rewardStructure)) (\<lambda>_.
               ifTruthy (referredBy l2) (\<lambda>code2.
               await (getUserByReferralCode env code2) (\<lambda>level3Referrer.
                 case level3Referrer of
                   None \<Rightarrow> resolve ()
                 | Some l3 \<Rightarrow>
               await (awardEarnings env (uid l3) nu 3 (rs_level3 rewardStructure)) (\<lambda>_.
               level4Loop fuel env nu l3 4))))))
             (awarded env (uid u) nu 1 (rs_level1 rewardStructure) r (w\<lparr>tick := tick w + 2\<rparr>))"
proof -
  let ?w1 = "w\<lparr>tick := Suc (tick w)\<rparr>"
  let ?w2 = "?w1\<lparr>tick := Suc (tick ?w1)\<rparr>"
  have f: "fault env (tick w) = None" "fault env (Suc (tick w)) = None"
    "fault env (tick w + 2) = None" "fault env (tick w + 3) = None"
    "fault env (tick w + 7) = None"
    using nf [rule_format, of 0] nf [rule_format, of 1] nf [rule_format, of 2]
      nf [rule_format, of 3] nf [rule_format, of 7] by simp_all
  have a: "awardEarnings env (uid u) nu 1 (rs_level1 rewardStructure) ?w2
             = Some (Inr (), awarded env (uid u) nu 1 (rs_level1 rewardStructure) r ?w2)"
    using f fresh by (intro awardEarnings_ok) (simp_all add: r eval_nat_numeral)
  have w2: "?w2 = w\<lparr>tick := tick w + 2\<rparr>" by simp
  show ?thesis
    unfolding processBody_def
    apply (rule await_step, rule getUserById_ok, rule f(1))
    apply (simp only: c option.case)
    apply (rule await_step, rule getUserByReferralCode_ok, simp add: f(2))
    apply (simp only: userByReferralCode_tick u option.case)
    apply (rule await_step, rule a)
    apply (simp only: w2)
    done
qed

lemma first_award_committed:
  assumes c: "userById w nu = Some cu" and u: "userByReferralCode w code = Some u"
    and r: "userById w (uid u) = Some r"
    and nf: "\<forall>k<8. fault env (tick w + k) = None"
    and fresh: "referralIdAt env (tick w + 4) \<notin> rid ` set (referrals w)"
    and run: "processNewReferral fuel env nu code w = Some (res, w')"
  shows "(\<exists>recs. referrals w' = referrals w @
             \<lparr>rid = referralIdAt env (tick w + 4), referrerId = uid u, referredId = nu,
              level = 1, earnings = 100, r_createdAt = clock env (tick w + 6)\<rparr> # recs)
       \<and> (\<exists>r'. userById w' (uid u) = Some r'
              \<and> totalEarnings r + 100 \<le> totalEarnings r'
              \<and> level1 (earningsByLevel r) + 100 \<le> level1 (earningsByLevel r'))"
proof -
  let ?w2 = "awarded env (uid u) nu 1 (rs_level1 rewardStructure) r (w\<lparr>tick := tick w + 2\<rparr>)"
  let ?rest = "ifTruthy (referredBy u) (\<lambda>code1.
               await (getUserByReferralCode env code1) (\<lambda>level2Referrer.
                 case level2Referrer of
                   None \<Rightarrow> resolve ()
                 | Some l2 \<Rightarrow>
               await (awardEarnings env (uid l2) nu 2 (rs_level2 rewardStructure)) (\<lambda>_.
               ifTruthy (referredBy l2) (\<lambda>code2.
               await (getUserByReferralCode env code2) (\<lambda>level3Referrer.
                 case level3Referrer of
                   None \<Rightarrow> resolve ()
                 | Some l3 \<Rightarrow>
               await (awardEarnings env (uid l3) nu 3 (rs_level3 rewardStructure)) (\<lambda>_.
               level4Loop fuel env nu l3 4))))))"
  have pres: "preserves grown ?rest"
    by (intro preserves_ifTruthy preserves_await preserves_case_option preserves_resolve
        preserves_reads stable_grown
        preserves_level4Loop [OF stable_grown awardClosed_grown rewards_nonneg(4)]
        preserves_awardEarnings [OF stable_grown awardClosed_grown rewards_nonneg(2)]
        preserves_awardEarnings [OF stable_grown awardClosed_grown rewards_nonneg(3)])
  from run obtain res' where "processBody fuel env nu code w = Some (res', w')"
    by (auto simp: processNewReferral_def split: option.splits sum.splits)
  then have "?rest ?w2 = Some (res', w')"
    by (simp only: first_award_run [OF c u r nf fresh])
  with pres have g: "grown ?w2 w'" by (rule preservesD)
  have "uid r = uid u" using r by (rule userById_uid)
  then have "userById ?w2 (uid u) = Some (credit 1 (rs_level1 rewardStructure) r)"
    by (simp add: userById_awarded)
  from grown_userById [OF g this] obtain r' where r': "userById w' (uid u) = Some r'"
    "notLess (credit 1 (rs_level1 rewardStructure) r) r'" by blast
  from r'(2) have "totalEarnings r + 100 \<le> totalEarnings r'"
    "level1 (earningsByLevel r) + 100 \<le> level1 (earningsByLevel r')"
    by (simp_all add: notLess_def credit_def Let_def rewardStructure_def)
  moreover from g obtain recs where "referrals w' = referrals ?w2 @ recs"
    by (auto simp: grown_def)
  then have "referrals w' = referrals w @
             \<lparr>rid = referralIdAt env (tick w + 4), referrerId = uid u, referredId = nu,
              level = 1, earnings = 100, r_createdAt = clock env (tick w + 6)\<rparr> # recs"
    by (simp add: awarded_def awardRecord_def rewardStructure_def eval_nat_numeral)
  ultimately show ?thesis using r'(1) by blast
qed

lemma second_lookup_fails:
  assumes c: "userById w nu = Some cu" and u: "userByReferralCode w code = Some u"
    and r: "userById w (uid u) = Some r"
    and nf: "\<forall>k<8. fault env (tick w + k) = None"
    and fresh: "referralIdAt env (tick w + 4) \<notin> rid ` set (referrals w)"
    and rb: "referredBy u = Some ca" "ca \<noteq> []"
    and bad: "fault env (tick w + 8) = Some m"
  shows "processNewReferral fuel env nu code w
           = Some (Inr (Failure m),
               (awarded env (uid u) nu 1 (rs_level1 rewardStructure) r (w\<lparr>tick := tick w + 2\<rparr>))
               \<lparr>tick := tick w + 9\<rparr>)"
proof -
  let ?w2 = "awarded env (uid u) nu 1 (rs_level1 rewardStructure) r (w\<lparr>tick := tick w + 2\<rparr>)"
  have t: "tick ?w2 = tick w + 8" by (simp add: awarded_def)
  have "fault env (tick ?w2) = Some m" by (simp only: t bad)
  then have "getUserByReferralCode env ca ?w2 = Some (Inl m, ?w2\<lparr>tick := Suc (tick ?w2)\<rparr>)"
    unfolding getUserByReferralCode_def by (rule request_fault)
  moreover have "Suc (tick ?w2) = tick w + 9" by (simp add: awarded_def)
  ultimately have l: "getUserByReferralCode env ca ?w2 = Some (Inl m, ?w2\<lparr>tick := tick w + 9\<rparr>)"
    by simp
  have "processBody fuel env nu code w = Some (Inl m, ?w2\<lparr>tick := tick w + 9\<rparr>)"
    unfolding first_award_run [OF c u r nf fresh]
    by (simp only: rb ifTruthy_def option.case if_False) (rule await_Inl, rule l)
  then show ?thesis by (simp add: processNewReferral_def)
qed




end
